theory Spec2Isabelle
  imports Complex_Main "HOL-Library.Sublist" "HOL-Library.Multiset"
begin

section \<open>Strings and the library calls of \<^verbatim>\<open>scrape_innout_locations.py\<close>\<close>

text \<open>
  A Python \<^verbatim>\<open>str\<close> is modelled as a \<^typ>\<open>string\<close>, one \<^typ>\<open>char\<close> per code point,
  so the model covers the code points below 256. In that range the class \<^verbatim>\<open>\d\<close> of
  \<^verbatim>\<open>re\<close> is the ten ASCII digits, and \<^verbatim>\<open>\s\<close> and the characters removed by
  \<^verbatim>\<open>str.strip()\<close> are the twelve characters of \<open>is_space\<close>.
\<close>

abbreviation (input) DQ :: char where
  "DQ \<equiv> CHR 0x22"

abbreviation (input) NL :: char where
  "NL \<equiv> CHR 0x0A"

definition is_digit :: "char \<Rightarrow> bool" where
  "is_digit c = (c \<in> set ''0123456789'')"

definition is_space :: "char \<Rightarrow> bool" where
  "is_space c = (c \<in> set [CHR 0x09, CHR 0x0A, CHR 0x0B, CHR 0x0C, CHR 0x0D,
                            CHR 0x1C, CHR 0x1D, CHR 0x1E, CHR 0x1F, CHR 0x20,
                            CHR 0x85, CHR 0xA0])"

definition digit_val :: "char \<Rightarrow> nat" where
  "digit_val c = of_char c - 48"

text \<open>\<^verbatim>\<open>s.strip()\<close> and \<^verbatim>\<open>s.strip(chars)\<close>: the characters satisfying \<open>P\<close> are
  removed from both ends.\<close>

definition strip_chars :: "(char \<Rightarrow> bool) \<Rightarrow> string \<Rightarrow> string" where
  "strip_chars P s = rev (dropWhile P (rev (dropWhile P s)))"

text \<open>\<^verbatim>\<open>s.split(sep, 1)\<close> when \<^verbatim>\<open>sep in s\<close>: the text before and after the first
  occurrence of \<open>sep\<close>; \<open>None\<close> when \<open>sep\<close> does not occur.\<close>

fun split_first :: "string \<Rightarrow> string \<Rightarrow> (string \<times> string) option" where
  "split_first sep [] = (if sep = [] then Some ([], []) else None)"
| "split_first sep (c # cs) =
     (if prefix sep (c # cs) then Some ([], drop (length sep) (c # cs))
      else map_option (\<lambda>(a, b). (c # a, b)) (split_first sep cs))"

text \<open>\<^verbatim>\<open>s.replace(old, new)\<close>: every occurrence of \<open>old\<close>, left to right, without
  overlap; for an empty \<open>old\<close> Python puts \<open>new\<close> before every character and at the
  end.\<close>

function replace_from :: "string \<Rightarrow> string \<Rightarrow> string \<Rightarrow> string" where
  "replace_from old new [] = []"
| "replace_from old new (c # cs) =
     (if old \<noteq> [] \<and> prefix old (c # cs)
      then new @ replace_from old new (drop (length old) (c # cs))
      else c # replace_from old new cs)"
  by pat_completeness auto
termination
  by (relation "measure (\<lambda>(old, new, s). length s)") auto

definition str_replace :: "string \<Rightarrow> string \<Rightarrow> string \<Rightarrow> string" where
  "str_replace old new s =
     (if old = [] then new @ concat (map (\<lambda>c. c # new) s) else replace_from old new s)"

text \<open>\<^verbatim>\<open>re.sub(r"\s+", " ", s).strip()\<close>.\<close>

function collapse_ws :: "string \<Rightarrow> string" where
  "collapse_ws [] = []"
| "collapse_ws (c # cs) =
     (if is_space c then CHR '' '' # collapse_ws (dropWhile is_space cs)
      else c # collapse_ws cs)"
  by pat_completeness auto
termination
  by (relation "measure length") (auto simp: less_Suc_eq_le length_dropWhile_le)

definition normalize_whitespace :: "string \<Rightarrow> string" where
  "normalize_whitespace s = strip_chars is_space (collapse_ws s)"

text \<open>\<^verbatim>\<open>re.sub(r"<[^>]+>", repl, s)\<close>: at a \<^verbatim>\<open><\<close> followed by at least one character
  other than \<^verbatim>\<open>></\<close> and then a \<^verbatim>\<open>></\<close>, the whole tag is replaced and the scan goes on
  behind it; any other character is kept.\<close>

function sub_tags :: "string \<Rightarrow> string \<Rightarrow> string" where
  "sub_tags repl [] = []"
| "sub_tags repl (c # cs) =
     (if c = CHR ''<'' \<and> takeWhile (\<lambda>x. x \<noteq> CHR ''>'') cs \<noteq> []
          \<and> dropWhile (\<lambda>x. x \<noteq> CHR ''>'') cs \<noteq> []
      then repl @ sub_tags repl (tl (dropWhile (\<lambda>x. x \<noteq> CHR ''>'') cs))
      else c # sub_tags repl cs)"
  by pat_completeness auto
termination
proof (relation "measure (\<lambda>(repl, s). length s)")
  show "wf (measure (\<lambda>(repl, s). length s))" by simp
next
  fix repl :: string and c :: char and cs :: string
  have "length (tl (dropWhile (\<lambda>x. x \<noteq> CHR ''>'') cs)) \<le> length cs"
    using length_dropWhile_le [of "\<lambda>x. x \<noteq> CHR ''>''" cs] by simp
  then show "((repl, tl (dropWhile (\<lambda>x. x \<noteq> CHR ''>'') cs)), (repl, c # cs))
      \<in> measure (\<lambda>(repl, s). length s)" by simp
next
  fix repl :: string and c :: char and cs :: string
  show "((repl, cs), (repl, c # cs)) \<in> measure (\<lambda>(repl, s). length s)" by simp
qed

text \<open>\<^verbatim>\<open>re.search(key + r'([^"]+)"', s)\<close>, group 1, where \<open>key\<close> is a literal ending in
  \<^verbatim>\<open>="\<close>: the leftmost position where \<open>key\<close> is followed by a non-empty run of
  characters other than the double quote and then a double quote.\<close>

fun search_attr :: "string \<Rightarrow> string \<Rightarrow> string option" where
  "search_attr key [] = None"
| "search_attr key (c # cs) =
     (if prefix key (c # cs)
         \<and> takeWhile (\<lambda>x. x \<noteq> DQ) (drop (length key) (c # cs)) \<noteq> []
         \<and> dropWhile (\<lambda>x. x \<noteq> DQ) (drop (length key) (c # cs)) \<noteq> []
      then Some (takeWhile (\<lambda>x. x \<noteq> DQ) (drop (length key) (c # cs)))
      else search_attr key cs)"

text \<open>\<^verbatim>\<open>re.search(op + r"(.*?)" + cl, s, re.S)\<close>, group 1, for literals \<open>op\<close> and
  \<open>cl\<close>: the text between the leftmost \<open>op\<close> that has a \<open>cl\<close> behind it and the first
  such \<open>cl\<close>.\<close>

fun search_between :: "string \<Rightarrow> string \<Rightarrow> string \<Rightarrow> string option" where
  "search_between op cl [] = None"
| "search_between op cl (c # cs) =
     (if prefix op (c # cs)
      then (case split_first cl (drop (length op) (c # cs)) of
              Some (a, b) \<Rightarrow> Some a
            | None \<Rightarrow> search_between op cl cs)
      else search_between op cl cs)"

text \<open>The store image:
  \<^verbatim>\<open>re.search(r'<img src="([^"]+)" alt="In-N-Out Burger - [^"]+" class="store-image"', s)\<close>,
  group 1.\<close>

definition img_open :: string where
  \<open>img_open = ''<img src="''\<close>

definition img_alt :: string where
  \<open>img_alt = ''" alt="In-N-Out Burger - ''\<close>

definition img_class :: string where
  \<open>img_class = ''" class="store-image"''\<close>

definition img_at :: "string \<Rightarrow> string option" where
  "img_at s =
     (if prefix img_open s then
        (let r = drop (length img_open) s;
             v = takeWhile (\<lambda>x. x \<noteq> DQ) r;
             r2 = dropWhile (\<lambda>x. x \<noteq> DQ) r
         in if v \<noteq> [] \<and> prefix img_alt r2 then
              (let r3 = drop (length img_alt) r2;
                   w = takeWhile (\<lambda>x. x \<noteq> DQ) r3;
                   r4 = dropWhile (\<lambda>x. x \<noteq> DQ) r3
               in if w \<noteq> [] \<and> prefix img_class r4 then Some v else None)
            else None)
      else None)"

fun search_img :: "string \<Rightarrow> string option" where
  "search_img [] = None"
| "search_img (c # cs) =
     (case img_at (c # cs) of Some v \<Rightarrow> Some v | None \<Rightarrow> search_img cs)"

text \<open>\<^verbatim>\<open>re.search(r"^(.*?),\s*(\d{5})(?:-\d{4})?$", s)\<close>, groups 1 and 2. Without
  \<^verbatim>\<open>re.M\<close> the anchor \<^verbatim>\<open>^\<close> only matches at position 0 and \<^verbatim>\<open>$\<close> matches at the end or
  before a final newline; without \<^verbatim>\<open>re.S\<close> the dot does not match a newline. Group 1 is
  lazy: the first comma whose remainder matches decides.\<close>

definition at_end :: "string \<Rightarrow> bool" where
  "at_end u = (u = [] \<or> u = [NL])"

definition zip_tail :: "string \<Rightarrow> string option" where
  "zip_tail r =
     (let t = dropWhile is_space r; z = take 5 t; u = drop 5 t
      in if length z = 5 \<and> list_all is_digit z
            \<and> ((length u \<ge> 5 \<and> hd u = CHR ''-'' \<and> list_all is_digit (take 4 (tl u))
                  \<and> at_end (drop 5 u))
                \<or> at_end u)
         then Some z else None)"

fun search_zip :: "string \<Rightarrow> (string \<times> string) option" where
  "search_zip [] = None"
| "search_zip (c # cs) =
     (if c = CHR '','' then
        (case zip_tail cs of
           Some z \<Rightarrow> Some ([], z)
         | None \<Rightarrow> map_option (\<lambda>(a, z). (c # a, z)) (search_zip cs))
      else if c = NL then None
      else map_option (\<lambda>(a, z). (c # a, z)) (search_zip cs))"

text \<open>\<^verbatim>\<open>str(n)\<close> for an integer: its decimal representation.\<close>

fun dec :: "nat \<Rightarrow> string" where
  "dec n = (if n < 10 then [char_of (48 + n)] else dec (n div 10) @ [char_of (48 + n mod 10)])"

declare dec.simps [simp del]

definition str_int :: "int \<Rightarrow> string" where
  "str_int i = (if i < 0 then CHR ''-'' # dec (nat (- i)) else dec (nat i))"

text \<open>
  The whitespace that \<^verbatim>\<open>int\<close> and \<^verbatim>\<open>float\<close> ignore around a number. Both turn a
  whitespace character above the ASCII range into a blank and then skip the ASCII
  whitespace, so that the separators U+001C to U+001F, which \<^verbatim>\<open>str.strip()\<close> removes,
  are not skipped: \<^verbatim>\<open>int("\x1c5")\<close> raises \<^verbatim>\<open>ValueError\<close>.
\<close>

definition is_numeric_space :: "char \<Rightarrow> bool" where
  "is_numeric_space c = (c \<in> set [CHR 0x09, CHR 0x0A, CHR 0x0B, CHR 0x0C, CHR 0x0D,
                                    CHR 0x20, CHR 0x85, CHR 0xA0])"

text \<open>\<^verbatim>\<open>int(s)\<close> on a string, base 10: surrounding whitespace is ignored, a sign may
  lead, the digits may be grouped by single underscores; anything else raises
  \<^verbatim>\<open>ValueError\<close> (\<open>None\<close>). The limit that recent interpreters put on the number of
  digits (4300 by default) is not modelled.\<close>

fun digitpart_rest :: "string \<Rightarrow> string \<times> string" where
  "digitpart_rest [] = ([], [])"
| "digitpart_rest [c] = (if is_digit c then ([c], []) else ([], [c]))"
| "digitpart_rest (c # d # cs) =
     (if is_digit c then (case digitpart_rest (d # cs) of (ds, r) \<Rightarrow> (c # ds, r))
      else if c = CHR ''_'' \<and> is_digit d then
        (case digitpart_rest cs of (ds, r) \<Rightarrow> (d # ds, r))
      else ([], c # d # cs))"

definition digitpart :: "string \<Rightarrow> (string \<times> string) option" where
  "digitpart s =
     (case s of
        [] \<Rightarrow> None
      | c # cs \<Rightarrow>
          if is_digit c then (case digitpart_rest cs of (ds, r) \<Rightarrow> Some (c # ds, r))
          else None)"

definition digits_val :: "string \<Rightarrow> nat" where
  "digits_val ds = foldl (\<lambda>a c. 10 * a + digit_val c) 0 ds"

definition sign_split :: "string \<Rightarrow> bool \<times> string" where
  "sign_split s =
     (case s of
        [] \<Rightarrow> (False, [])
      | c # cs \<Rightarrow>
          if c = CHR ''-'' then (True, cs)
          else if c = CHR ''+'' then (False, cs)
          else (False, c # cs))"

definition signed_digits :: "string \<Rightarrow> int option" where
  "signed_digits s =
     (case sign_split s of
        (neg, body) \<Rightarrow>
          (case digitpart body of
             Some (ds, r) \<Rightarrow>
               if r = [] then Some (if neg then - int (digits_val ds) else int (digits_val ds))
               else None
           | None \<Rightarrow> None))"

definition py_int :: "string \<Rightarrow> int option" where
  "py_int s = signed_digits (strip_chars is_numeric_space s)"

text \<open>
  \<^verbatim>\<open>float(s)\<close> on a string, after the grammar of the language reference: surrounding
  whitespace, a sign, then \<^verbatim>\<open>inf\<close>, \<^verbatim>\<open>infinity\<close> or \<^verbatim>\<open>nan\<close> in any case, or a
  decimal number with an optional exponent; anything else raises \<^verbatim>\<open>ValueError\<close>
  (\<open>None\<close>). The value kept is the exact decimal value of the literal; the rounding to
  a binary64 number, with its overflow to infinity, is not modelled. The extractor below takes the conversion as a
  parameter, so that what is proved of it holds for every conversion; \<open>py_float\<close> is
  the instance used on concrete pages.
\<close>

datatype pyfloat = Finite rat | PosInf | NegInf | NaN

definition ascii_lower :: "char \<Rightarrow> char" where
  "ascii_lower c =
     (if c \<in> set ''ABCDEFGHIJKLMNOPQRSTUVWXYZ'' then char_of (of_char c + (32::nat)) else c)"

definition pow10 :: "int \<Rightarrow> rat" where
  "pow10 e = (if 0 \<le> e then 10 ^ nat e else 1 / 10 ^ nat (- e))"

definition exponent :: "string \<Rightarrow> int option" where
  "exponent r =
     (case r of
        [] \<Rightarrow> Some 0
      | c # cs \<Rightarrow> if c = CHR ''e'' \<or> c = CHR ''E'' then signed_digits cs else None)"

definition mk_float :: "string \<Rightarrow> string \<Rightarrow> int option \<Rightarrow> rat option" where
  "mk_float ip fp e =
     map_option (\<lambda>n. of_nat (digits_val (ip @ fp)) * pow10 (n - int (length fp))) e"

definition float_number :: "string \<Rightarrow> rat option" where
  "float_number s =
     (case digitpart s of
        Some (ip, r) \<Rightarrow>
          (case r of
             [] \<Rightarrow> mk_float ip [] (Some 0)
           | c # r1 \<Rightarrow>
               if c = CHR ''.'' then
                 (case digitpart r1 of
                    Some (fp, r2) \<Rightarrow> mk_float ip fp (exponent r2)
                  | None \<Rightarrow> mk_float ip [] (exponent r1))
               else mk_float ip [] (exponent r))
      | None \<Rightarrow>
          (case s of
             [] \<Rightarrow> None
           | c # r1 \<Rightarrow>
               if c = CHR ''.'' then
                 (case digitpart r1 of
                    Some (fp, r2) \<Rightarrow> mk_float [] fp (exponent r2)
                  | None \<Rightarrow> None)
               else None))"

definition py_float :: "string \<Rightarrow> pyfloat option" where
  "py_float s =
     (case sign_split (strip_chars is_numeric_space s) of
        (neg, body) \<Rightarrow>
          if map ascii_lower body = ''inf'' \<or> map ascii_lower body = ''infinity''
          then Some (if neg then NegInf else PosInf)
          else if map ascii_lower body = ''nan'' then Some NaN
          else map_option (\<lambda>q. Finite (if neg then - q else q)) (float_number body))"

section \<open>The extractor\<close>

definition BASE :: string where
  "BASE = ''https://locations.in-n-out.com''"

record 'f Location =
  id' :: string
  slug :: string
  name :: string
  city_state :: string
  address_line :: string
  zip_code :: string
  latitude :: 'f
  longitude :: 'f
  url :: string
  image_url :: string

definition lat_key :: string where
  \<open>lat_key = ''data-latitude="''\<close>

definition lng_key :: string where
  \<open>lng_key = ''data-longitude="''\<close>

definition h3_open :: string where
  \<open>h3_open = ''<h3 class="street-address">''\<close>

text \<open>Line 50: \<^verbatim>\<open>url.replace(BASE, "").strip("/")\<close>.\<close>

definition url_path :: "string \<Rightarrow> string" where
  "url_path u = strip_chars (\<lambda>c. c = CHR ''/'') (str_replace BASE [] u)"

text \<open>Lines 57 to 65 and 87 to 89: the three address fields of the record, from the
  normalized heading \<open>h3\<close>.\<close>

definition heading_fields :: "string \<Rightarrow> string \<times> string \<times> string" where
  "heading_fields h3 =
     (case (case split_first '' - '' h3 of Some (a, b) \<Rightarrow> (a, b) | None \<Rightarrow> (h3, [])) of
        (city, address_zip) \<Rightarrow>
          (case (case search_zip address_zip of
                   Some (g1, g2) \<Rightarrow> (normalize_whitespace g1, g2)
                 | None \<Rightarrow> (address_zip, [])) of
             (address, zipc) \<Rightarrow>
               (normalize_whitespace city, normalize_whitespace address, zipc)))"

text \<open>Lines 67 to 71: the business name, from the match of the title element.\<close>

definition store_name :: "string option \<Rightarrow> string" where
  "store_name title_m =
     (case title_m of
        None \<Rightarrow> ''In-N-Out Burger''
      | Some g \<Rightarrow>
          (case split_first '' - '' (normalize_whitespace (sub_tags [] g)) of
             Some (a, b) \<Rightarrow> a
           | None \<Rightarrow> ''In-N-Out Burger''))"

text \<open>Lines 73 to 75: the image address, made absolute when it starts with a slash.\<close>

definition store_image :: "string option \<Rightarrow> string" where
  "store_image img_m =
     (case (case img_m of Some g \<Rightarrow> g | None \<Rightarrow> []) of
        src \<Rightarrow> if prefix ''/'' src then BASE @ src else src)"

text \<open>\<^verbatim>\<open>parse_store_page(url, html)\<close>; \<open>pfloat\<close> is \<^verbatim>\<open>float\<close>, with \<open>None\<close> for
  \<^verbatim>\<open>ValueError\<close>. The checks come in the order of the source: the three required
  matches, the id of the path, and the two conversions last.\<close>

definition parse_store_page ::
    "(string \<Rightarrow> 'f option) \<Rightarrow> string \<Rightarrow> string \<Rightarrow> 'f Location option" where
  "parse_store_page pfloat u html =
     (case search_attr lat_key html of
        None \<Rightarrow> None
      | Some lat_s \<Rightarrow>
     (case search_attr lng_key html of
        None \<Rightarrow> None
      | Some lng_s \<Rightarrow>
     (case search_between h3_open ''</h3>'' html of
        None \<Rightarrow> None
      | Some h3_raw \<Rightarrow>
          if takeWhile is_digit (url_path u) = [] then None
          else
            (case heading_fields (normalize_whitespace (sub_tags '' '' h3_raw)) of
               (city, address, zipc) \<Rightarrow>
                 (case pfloat lat_s of
                    None \<Rightarrow> None
                  | Some lat \<Rightarrow>
                      (case pfloat lng_s of
                         None \<Rightarrow> None
                       | Some lng \<Rightarrow>
                           Some \<lparr> id' = takeWhile is_digit (url_path u),
                                  slug = url_path u,
                                  name = store_name (search_between ''<title>'' ''</title>'' html),
                                  city_state = city,
                                  address_line = address,
                                  zip_code = zipc,
                                  latitude = lat,
                                  longitude = lng,
                                  url = u,
                                  image_url = store_image (search_img html) \<rparr>))))))"

section \<open>The scanner\<close>

text \<open>
  The outcome of \<^verbatim>\<open>s.get(url, timeout=12)\<close>: a response, of which the program reads
  \<^verbatim>\<open>status_code\<close> and \<^verbatim>\<open>text\<close> (its own final address, \<^verbatim>\<open>r.url\<close>, is the third
  component), or any exception caught by \<^verbatim>\<open>except Exception\<close>. The remote site is a
  function \<open>get\<close> on a state \<open>'w\<close> of the world, so that an answer may depend on
  everything requested before.
\<close>

datatype fetch_result = Response int string string | Raised

text \<open>What the scan does to the outside, in order: requests, printed lines, sleeps.\<close>

datatype event = Get string | Print string | Sleep

record 'f scan_state =
  found :: "(string \<times> 'f Location) list"
  misses :: int
  trace :: "event list"

text \<open>\<^verbatim>\<open>d[k] = v\<close> on a dictionary kept as the list of its items in insertion order: an
  existing key keeps its place and takes the new value, a new key goes to the end.\<close>

fun dict_set :: "'k \<Rightarrow> 'v \<Rightarrow> ('k \<times> 'v) list \<Rightarrow> ('k \<times> 'v) list" where
  "dict_set k v [] = [(k, v)]"
| "dict_set k v (p # ps) = (if fst p = k then (k, v) # ps else p # dict_set k v ps)"

text \<open>Line 105: \<^verbatim>\<open>f"{BASE}/{i}"\<close>.\<close>

definition url_of :: "int \<Rightarrow> string" where
  "url_of i = BASE @ ''/'' @ str_int i"

text \<open>Lines 106 to 110.\<close>

definition fetch_body :: "fetch_result \<Rightarrow> string" where
  "fetch_body r =
     (case r of Response code text final \<Rightarrow> if code = 200 then text else [] | Raised \<Rightarrow> [])"

text \<open>Lines 105 to 112: the value of \<^verbatim>\<open>loc\<close> in the iteration for id \<open>i\<close> when the
  world is \<open>w\<close>. The address given to the extractor is the one built from \<open>i\<close>.\<close>

definition probe_loc ::
    "('w \<Rightarrow> string \<Rightarrow> fetch_result \<times> 'w) \<Rightarrow> (string \<Rightarrow> 'f option) \<Rightarrow> 'w \<Rightarrow> int
       \<Rightarrow> 'f Location option" where
  "probe_loc get pfloat w i =
     (let html = fetch_body (fst (get w (url_of i)))
      in if html \<noteq> [] then parse_store_page pfloat (url_of i) html else None)"

text \<open>Lines 105 to 120: one probe, up to the progress line.\<close>

definition probe ::
    "('w \<Rightarrow> string \<Rightarrow> fetch_result \<times> 'w) \<Rightarrow> (string \<Rightarrow> 'f option) \<Rightarrow> int
       \<Rightarrow> 'w \<times> 'f scan_state \<Rightarrow> 'w \<times> 'f scan_state" where
  "probe get pfloat i ws =
     (case ws of
        (w, st) \<Rightarrow>
          (let st1 = st\<lparr>trace := trace st @ [Get (url_of i)]\<rparr>;
               st2 = (case probe_loc get pfloat w i of
                        Some l \<Rightarrow> st1\<lparr>found := dict_set (id' l) l (found st1), misses := 0\<rparr>
                      | None \<Rightarrow> st1\<lparr>misses := misses st1 + 1\<rparr>);
               st3 = (if i mod 100 = 0
                      then st2\<lparr>trace := trace st2 @
                             [Print (''checked='' @ str_int i
                                     @ '' found='' @ str_int (int (length (found st2)))
                                     @ '' misses='' @ str_int (misses st2))]\<rparr>
                      else st2)
           in (snd (get w (url_of i)), st3)))"

text \<open>The loop of lines 104 to 126 over the ids of \<^verbatim>\<open>range(1, max_id + 1)\<close>. The first
  component of the result tells whether the loop was left by \<^verbatim>\<open>break\<close>.\<close>

fun for_loop ::
    "('w \<Rightarrow> string \<Rightarrow> fetch_result \<times> 'w) \<Rightarrow> (string \<Rightarrow> 'f option) \<Rightarrow> int
       \<Rightarrow> int list \<Rightarrow> 'w \<times> 'f scan_state \<Rightarrow> bool \<times> 'w \<times> 'f scan_state" where
  "for_loop get pfloat T [] ws = (False, ws)"
| "for_loop get pfloat T (i # ids) ws =
     (case probe get pfloat i ws of
        (w, st) \<Rightarrow>
          if misses st \<ge> T \<and> i > 300
          then (True, w, st\<lparr>trace := trace st @
                  [Print (''Stopping early after '' @ str_int (misses st)
                          @ '' consecutive misses at id='' @ str_int i)]\<rparr>)
          else for_loop get pfloat T ids (w, st\<lparr>trace := trace st @ [Sleep]\<rparr>))"

definition init_state :: "'f scan_state" where
  "init_state = \<lparr>found = [], misses = 0, trace = []\<rparr>"

text \<open>\<^verbatim>\<open>scrape_by_ids(max_id, stop_after_consecutive_miss)\<close> started in the world \<open>w\<close>:
  \<open>scrape_run\<close> is the state in which the function returns, \<open>scrape_by_ids\<close> the
  dictionary it returns.\<close>

definition scrape_run ::
    "('w \<Rightarrow> string \<Rightarrow> fetch_result \<times> 'w) \<Rightarrow> (string \<Rightarrow> 'f option) \<Rightarrow> 'w
       \<Rightarrow> int \<Rightarrow> int \<Rightarrow> 'f scan_state" where
  "scrape_run get pfloat w max_id T =
     snd (snd (for_loop get pfloat T [1..max_id] (w, init_state)))"

definition scrape_by_ids ::
    "('w \<Rightarrow> string \<Rightarrow> fetch_result \<times> 'w) \<Rightarrow> (string \<Rightarrow> 'f option) \<Rightarrow> 'w
       \<Rightarrow> int \<Rightarrow> int \<Rightarrow> (string \<times> 'f Location) list" where
  "scrape_by_ids get pfloat w max_id T = found (scrape_run get pfloat w max_id T)"

text \<open>The addresses requested and the number of sleeps, read off the trace.\<close>

fun probed :: "event list \<Rightarrow> string list" where
  "probed [] = []"
| "probed (Get u # es) = u # probed es"
| "probed (e # es) = probed es"

fun no_prints :: "event list \<Rightarrow> event list" where
  "no_prints [] = []"
| "no_prints (Print m # es) = no_prints es"
| "no_prints (e # es) = e # no_prints es"

text \<open>Line 139 of \<^verbatim>\<open>main\<close>: the records in the order of
  \<^verbatim>\<open>sorted(found.items(), key=lambda kv: int(kv[0]))\<close>, a stable sort; a key that
  \<^verbatim>\<open>int\<close> rejects raises \<^verbatim>\<open>ValueError\<close> (\<open>None\<close>).\<close>

definition int_key :: "string \<Rightarrow> int" where
  "int_key k = (case py_int k of Some n \<Rightarrow> n | None \<Rightarrow> 0)"

definition locations :: "(string \<times> 'v) list \<Rightarrow> 'v list option" where
  "locations d =
     (if list_all (\<lambda>kv. py_int (fst kv) \<noteq> None) d
      then Some (map snd (sort_key (\<lambda>kv. int_key (fst kv)) d))
      else None)"

section \<open>Auxiliary notions and example inputs\<close>

text \<open>A string in which every whitespace character is a single blank between two other
  characters or at an end: what \<^verbatim>\<open>re.sub(r"\s+", " ", s)\<close> returns.\<close>

fun spaced :: "string \<Rightarrow> bool" where
  "spaced [] = True"
| "spaced [c] = (is_space c \<longrightarrow> c = CHR '' '')"
| "spaced (c # d # cs) = ((is_space c \<longrightarrow> c = CHR '' '' \<and> \<not> is_space d) \<and> spaced (d # cs))"

text \<open>\<^verbatim>\<open>sep.join(ps)\<close>, to write an address as pieces joined by the base origin.\<close>

fun join_with :: "string \<Rightarrow> string list \<Rightarrow> string" where
  "join_with sep [] = []"
| "join_with sep [p] = p"
| "join_with sep (p # q # ps) = p @ sep @ join_with sep (q # ps)"

text \<open>The path of an address as the specification words it, not as the code computes it:
  everything after the base origin (after its first occurrence; the whole address when the
  origin does not occur), with leading and trailing slashes removed.\<close>

definition claimed_url_path :: "string \<Rightarrow> string" where
  "claimed_url_path u =
     strip_chars (\<lambda>c. c = CHR ''/'')
       (case split_first BASE u of Some (a, b) \<Rightarrow> b | None \<Rightarrow> u)"

text \<open>A store page with the three required elements and nothing else.\<close>

definition store_page :: string where
  \<open>store_page = ''data-latitude="34" data-longitude="-118"<h3 class="street-address">Los Angeles, CA - 123 Main St, 90001</h3>''\<close>

text \<open>Three remote sites, with no state of their own: one that fails every request, one
  that answers every request with the store page under status 201, and one that serves
  the store page at id 300 only.\<close>

definition down :: "unit \<Rightarrow> string \<Rightarrow> fetch_result \<times> unit" where
  "down w u = (Raised, w)"

definition created :: "unit \<Rightarrow> string \<Rightarrow> fetch_result \<times> unit" where
  "created w u = (Response 201 store_page u, w)"

definition only_300 :: "unit \<Rightarrow> string \<Rightarrow> fetch_result \<times> unit" where
  "only_300 w u =
     (if u = ''https://locations.in-n-out.com/300'' then Response 200 store_page u else Raised, w)"

text \<open>A site that answers every request with the store page.\<close>

definition serving :: "unit \<Rightarrow> string \<Rightarrow> fetch_result \<times> unit" where
  "serving w u = (Response 200 store_page u, w)"

text \<open>The invariant of the dictionary during a scan that has reached id \<open>b\<close>: every item
  is keyed by the decimal string of an id from 1 to below \<open>b\<close>, and holds the record of
  that id and of the address built from it.\<close>

definition keyed_below :: "int \<Rightarrow> (string \<times> 'f Location) list \<Rightarrow> bool" where
  "keyed_below b d =
     (\<forall>kv\<in>set d. \<exists>j. 1 \<le> j \<and> j < b \<and> fst kv = str_int j \<and> id' (snd kv) = str_int j
                        \<and> url (snd kv) = url_of j)"

text \<open>A record with a given id, to fill a dictionary by hand.\<close>

definition sample_loc :: "string \<Rightarrow> pyfloat Location" where
  "sample_loc k =
     \<lparr> id' = k, slug = k, name = ''In-N-Out Burger'', city_state = ''Los Angeles, CA'',
       address_line = ''123 Main St'', zip_code = ''90001'', latitude = Finite 34,
       longitude = Finite (- 118), url = ''https://locations.in-n-out.com/'' @ k,
       image_url = [] \<rparr>"

section \<open>Properties of the library calls\<close>

lemma replace_from_absent:
  "(\<And>a b. s \<noteq> a @ old @ b) \<Longrightarrow> replace_from old new s = s"
proof (induction s)
  case Nil
  show ?case by simp
next
  case (Cons c cs)
  have np: "\<not> prefix old (c # cs)"
  proof
    assume "prefix old (c # cs)"
    then obtain r where "c # cs = old @ r" by (auto simp: prefix_def)
    then have "c # cs = [] @ old @ r" by simp
    with Cons.prems show False by blast
  qed
  have "\<And>a b. cs \<noteq> a @ old @ b"
  proof
    fix a b assume "cs = a @ old @ b"
    then have "c # cs = (c # a) @ old @ b" by simp
    with Cons.prems show False by blast
  qed
  then have "replace_from old new cs = cs" by (rule Cons.IH)
  with np show ?case by simp
qed

lemma BASE_nonempty: "BASE \<noteq> []"
  by (simp add: BASE_def)

lemma replace_from_prefix:
  "old \<noteq> [] \<Longrightarrow> replace_from old new (old @ p) = new @ replace_from old new p"
  by (cases old) simp_all

lemma url_path_after_BASE:
  assumes "\<And>a b. p \<noteq> a @ BASE @ b"
  shows "url_path (BASE @ p) = strip_chars (\<lambda>c. c = CHR ''/'') p"
  using replace_from_absent [of p BASE "[]"] assms
  by (simp add: url_path_def str_replace_def BASE_nonempty replace_from_prefix)

lemma is_digit_char_of: "(n::nat) < 10 \<Longrightarrow> is_digit (char_of (48 + n))"
proof -
  assume "n < 10"
  moreover have "\<forall>k\<in>set [0..<10]. is_digit (char_of (48 + k))" by code_simp
  ultimately show ?thesis by simp
qed

lemma digit_val_char_of: "(n::nat) < 10 \<Longrightarrow> digit_val (char_of (48 + n)) = n"
  by (simp add: digit_val_def)

lemma dec_digits: "list_all is_digit (dec n)"
proof (induction n rule: dec.induct)
  case (1 n)
  show ?case
  proof (cases "n < 10")
    case True
    then show ?thesis by (subst dec.simps) (simp add: is_digit_char_of)
  next
    case False
    then have "list_all is_digit (dec (n div 10))" using 1 by simp
    moreover have "is_digit (char_of (48 + n mod 10))" by (rule is_digit_char_of) simp
    ultimately show ?thesis using False by (subst dec.simps) simp
  qed
qed

lemma dec_nonempty: "dec n \<noteq> []"
  by (subst dec.simps) simp

lemma digits_val_snoc: "digits_val (ds @ [c]) = 10 * digits_val ds + digit_val c"
  by (simp add: digits_val_def)

lemma digits_val_dec: "digits_val (dec n) = n"
proof (induction n rule: dec.induct)
  case (1 n)
  show ?case
  proof (cases "n < 10")
    case True
    then have "dec n = [char_of (48 + n)]" by (subst dec.simps) simp
    then show ?thesis using True by (simp add: digits_val_def digit_val_char_of)
  next
    case False
    then have ih: "digits_val (dec (n div 10)) = n div 10" using 1 by simp
    have "dec n = dec (n div 10) @ [char_of (48 + n mod 10)]"
      using False by (subst dec.simps) simp
    then show ?thesis by (simp add: digits_val_snoc ih digit_val_char_of)
  qed
qed

lemma dec_inj: "dec m = dec n \<Longrightarrow> m = n"
  by (metis digits_val_dec)

lemma str_int_nonneg: "0 \<le> i \<Longrightarrow> str_int i = dec (nat i)"
  by (simp add: str_int_def)

lemma str_int_inj: "0 \<le> i \<Longrightarrow> 0 \<le> j \<Longrightarrow> str_int i = str_int j \<Longrightarrow> i = j"
  using dec_inj [of "nat i" "nat j"] by (simp add: str_int_nonneg)

lemma is_digit_not_special:
  "is_digit c \<Longrightarrow> c \<noteq> CHR ''h'' \<and> c \<noteq> CHR ''/'' \<and> c \<noteq> CHR ''-'' \<and> c \<noteq> CHR ''+'' \<and> c \<noteq> CHR ''_'' \<and> \<not> is_space c \<and> \<not> is_numeric_space c"
  by (auto simp: is_digit_def is_space_def is_numeric_space_def)

lemma strip_chars_id:
  "s \<noteq> [] \<Longrightarrow> \<not> P (hd s) \<Longrightarrow> \<not> P (last s) \<Longrightarrow> strip_chars P s = s"
proof -
  assume a: "s \<noteq> []" "\<not> P (hd s)" "\<not> P (last s)"
  then have "dropWhile P s = s" by (simp add: dropWhile_eq_self_iff)
  moreover have "dropWhile P (rev s) = rev s"
    using a by (simp add: dropWhile_eq_self_iff hd_rev)
  ultimately show ?thesis by (simp add: strip_chars_def)
qed

lemma digits_hd_last:
  "list_all is_digit ds \<Longrightarrow> ds \<noteq> [] \<Longrightarrow> is_digit (hd ds) \<and> is_digit (last ds)"
  by (metis hd_in_set last_in_set list_all_iff)

lemma url_path_url_of: "0 \<le> i \<Longrightarrow> url_path (url_of i) = str_int i"
proof -
  assume nn: "0 \<le> i"
  let ?ds = "dec (nat i)"
  have dig: "list_all is_digit ?ds" by (rule dec_digits)
  have noh: "CHR ''h'' \<notin> set (''/'' @ ?ds)"
    using dig is_digit_not_special by (auto simp: list_all_iff)
  have "\<And>a b. ''/'' @ ?ds \<noteq> a @ BASE @ b"
  proof
    fix a b assume "''/'' @ ?ds = a @ BASE @ b"
    then have "set BASE \<subseteq> set (''/'' @ ?ds)"
      by (metis set_append sup.cobounded1 sup.cobounded2 subset_trans)
    moreover have "CHR ''h'' \<in> set BASE" by (simp add: BASE_def)
    ultimately show False using noh by blast
  qed
  then have "url_path (BASE @ ''/'' @ ?ds) = strip_chars (\<lambda>c. c = CHR ''/'') (''/'' @ ?ds)"
    by (rule url_path_after_BASE)
  also have "\<dots> = strip_chars (\<lambda>c. c = CHR ''/'') ?ds"
    by (simp add: strip_chars_def)
  also have "\<dots> = ?ds"
    using digits_hd_last [OF dig dec_nonempty] is_digit_not_special
    by (intro strip_chars_id dec_nonempty) blast+
  finally show ?thesis using nn by (simp add: url_of_def str_int_nonneg)
qed

lemma takeWhile_digits: "list_all is_digit ds \<Longrightarrow> takeWhile is_digit ds = ds"
  by (simp add: list_all_iff)

lemma url_path_url_of_neg: "i < 0 \<Longrightarrow> takeWhile is_digit (url_path (url_of i)) = []"
proof -
  assume neg: "i < 0"
  let ?ds = "dec (nat (- i))"
  let ?p = "''/-'' @ ?ds"
  have dig: "list_all is_digit ?ds" by (rule dec_digits)
  have noh: "CHR ''h'' \<notin> set ?p"
    using dig is_digit_not_special by (auto simp: list_all_iff)
  have "\<And>a b. ?p \<noteq> a @ BASE @ b"
  proof
    fix a b assume "?p = a @ BASE @ b"
    then have "set BASE \<subseteq> set ?p"
      by (metis set_append sup.cobounded1 sup.cobounded2 subset_trans)
    moreover have "CHR ''h'' \<in> set BASE" by (simp add: BASE_def)
    ultimately show False using noh by blast
  qed
  then have "url_path (BASE @ ?p) = strip_chars (\<lambda>c. c = CHR ''/'') ?p"
    by (rule url_path_after_BASE)
  also have "\<dots> = strip_chars (\<lambda>c. c = CHR ''/'') (CHR ''-'' # ?ds)"
    by (simp add: strip_chars_def)
  also have "\<dots> = CHR ''-'' # ?ds"
    using digits_hd_last [OF dig dec_nonempty] is_digit_not_special
    by (intro strip_chars_id) (auto simp: dec_nonempty)
  finally show ?thesis using neg by (simp add: url_of_def str_int_def is_digit_def)
qed

lemma spaced_Cons_nonspace: "\<not> is_space c \<Longrightarrow> spaced (c # xs) = spaced xs"
  by (cases xs) simp_all

lemma spaced_Cons_space:
  "spaced (CHR '' '' # xs) = ((xs = [] \<or> \<not> is_space (hd xs)) \<and> spaced xs)"
  by (cases xs) (auto simp: is_space_def)

lemma spaced_tl: "spaced (c # cs) \<Longrightarrow> spaced cs"
  by (cases cs) simp_all

lemma collapse_ws_hd:
  "s \<noteq> [] \<Longrightarrow> \<not> is_space (hd s) \<Longrightarrow> collapse_ws s = hd s # collapse_ws (tl s)"
  by (cases s) simp_all

lemma spaced_collapse_ws: "spaced (collapse_ws s)"
proof (induction s rule: collapse_ws.induct)
  case 1
  show ?case by simp
next
  case (2 c cs)
  show ?case
  proof (cases "is_space c")
    case True
    let ?r = "dropWhile is_space cs"
    have ih: "spaced (collapse_ws ?r)" using 2 True by simp
    have "collapse_ws ?r = [] \<or> \<not> is_space (hd (collapse_ws ?r))"
    proof (cases "?r = []")
      case True
      then show ?thesis by (metis collapse_ws.simps(1))
    next
      case False
      then have "\<not> is_space (hd ?r)" by (rule hd_dropWhile)
      with False show ?thesis by (simp add: collapse_ws_hd)
    qed
    with ih True show ?thesis by (simp add: spaced_Cons_space)
  next
    case False
    then show ?thesis using 2 by (simp add: spaced_Cons_nonspace)
  qed
qed

lemma collapse_ws_spaced: "spaced s \<Longrightarrow> collapse_ws s = s"
proof (induction s)
  case Nil
  show ?case by simp
next
  case (Cons c cs)
  then have ih: "collapse_ws cs = cs" using spaced_tl by blast
  show ?case
  proof (cases "is_space c")
    case True
    then have "cs = [] \<or> \<not> is_space (hd cs)" using Cons.prems by (cases cs) auto
    then have "dropWhile is_space cs = cs" by (simp add: dropWhile_eq_self_iff)
    moreover have "c = CHR '' ''" using True Cons.prems by (cases cs) auto
    ultimately show ?thesis using True ih by simp
  next
    case False
    then show ?thesis using ih by simp
  qed
qed

lemma spaced_append_left: "spaced (xs @ ys) \<Longrightarrow> spaced xs"
proof (induction xs rule: spaced.induct)
  case 1
  show ?case by simp
next
  case (2 c)
  then show ?case by (cases ys) auto
next
  case (3 c d cs)
  then show ?case by auto
qed

lemma spaced_append_right: "spaced (xs @ ys) \<Longrightarrow> spaced ys"
  by (induction xs) (auto dest: spaced_tl)

lemma strip_chars_infix: "\<exists>a b. s = a @ strip_chars P s @ b"
proof -
  let ?a = "dropWhile P s"
  have "rev (takeWhile P (rev ?a) @ dropWhile P (rev ?a)) = rev (rev ?a)"
    by (simp only: takeWhile_dropWhile_id)
  then have "rev (dropWhile P (rev ?a)) @ rev (takeWhile P (rev ?a)) = ?a"
    by (simp only: rev_append rev_rev_ident)
  then have "?a = strip_chars P s @ rev (takeWhile P (rev ?a))"
    by (simp only: strip_chars_def)
  moreover have "s = takeWhile P s @ ?a" by simp
  ultimately show ?thesis by metis
qed

lemma strip_chars_prefix_dropWhile: "\<exists>b. dropWhile P s = strip_chars P s @ b"
proof -
  let ?a = "dropWhile P s"
  have "rev (takeWhile P (rev ?a) @ dropWhile P (rev ?a)) = rev (rev ?a)"
    by (simp only: takeWhile_dropWhile_id)
  then have "rev (dropWhile P (rev ?a)) @ rev (takeWhile P (rev ?a)) = ?a"
    by (simp only: rev_append rev_rev_ident)
  then have "?a = strip_chars P s @ rev (takeWhile P (rev ?a))"
    by (simp only: strip_chars_def)
  then show ?thesis by blast
qed

lemma strip_chars_idem: "strip_chars P (strip_chars P s) = strip_chars P s"
proof (cases "strip_chars P s = []")
  case True
  have "strip_chars P [] = []" by (simp add: strip_chars_def)
  then show ?thesis by (simp only: True)
next
  case False
  let ?t = "strip_chars P s"
  obtain b where b: "dropWhile P s = ?t @ b" using strip_chars_prefix_dropWhile by blast
  then have ne: "dropWhile P s \<noteq> []" using False by auto
  have "hd ?t = hd (dropWhile P s)" using b False by (metis hd_append2)
  then have h: "\<not> P (hd ?t)" using hd_dropWhile [OF ne] by simp
  have ne2: "dropWhile P (rev (dropWhile P s)) \<noteq> []" using False by (simp add: strip_chars_def)
  have "last ?t = hd (dropWhile P (rev (dropWhile P s)))"
    using ne2 by (simp add: strip_chars_def last_rev)
  then have l: "\<not> P (last ?t)" using hd_dropWhile [OF ne2] by simp
  show ?thesis using False h l by (rule strip_chars_id)
qed

lemma spaced_normalize: "spaced (normalize_whitespace s)"
proof -
  obtain a b where "collapse_ws s = a @ normalize_whitespace s @ b"
    unfolding normalize_whitespace_def using strip_chars_infix by blast
  then have "spaced (a @ normalize_whitespace s @ b)" using spaced_collapse_ws [of s] by simp
  then show ?thesis using spaced_append_left spaced_append_right by blast
qed

lemma normalize_whitespace_idem:
  "normalize_whitespace (normalize_whitespace s) = normalize_whitespace s"
proof -
  have "collapse_ws (normalize_whitespace s) = normalize_whitespace s"
    using spaced_normalize by (rule collapse_ws_spaced)
  then show ?thesis
    using strip_chars_idem [of is_space "collapse_ws s"] by (simp add: normalize_whitespace_def)
qed

lemma normalize_whitespace_Nil: "normalize_whitespace [] = []"
  by (simp add: normalize_whitespace_def strip_chars_def)

lemma heading_fields_no_separator:
  "split_first '' - '' (normalize_whitespace x) = None \<Longrightarrow>
     heading_fields (normalize_whitespace x) = (normalize_whitespace x, [], [])"
  by (simp add: heading_fields_def normalize_whitespace_idem normalize_whitespace_Nil)

lemma BASE_h: "CHR ''h'' \<notin> set (tl BASE) \<and> hd BASE = CHR ''h''"
  by (simp add: BASE_def)

lemma BASE_no_straddle:
  assumes "prefix BASE (s @ BASE @ r)" and "s \<noteq> []"
  shows "prefix BASE s"
proof (rule ccontr)
  assume np: "\<not> prefix BASE s"
  from assms(1) obtain t where t: "s @ (BASE @ r) = BASE @ t" by (auto simp: prefix_def)
  then have "(\<exists>us. s = BASE @ us \<and> us @ (BASE @ r) = t)
      \<or> (\<exists>us. s @ us = BASE \<and> BASE @ r = us @ t)"
    unfolding append_eq_append_conv2 by blast
  moreover have "\<not> (\<exists>us. s = BASE @ us \<and> us @ (BASE @ r) = t)" using np by (auto simp: prefix_def)
  ultimately obtain us where b: "s @ us = BASE" and e: "BASE @ r = us @ t" by blast
  have ne: "us \<noteq> []" using b np by (auto simp: prefix_def)
  have "hd us = hd BASE" using e ne BASE_nonempty by (metis hd_append2)
  moreover obtain c s' where "s = c # s'" using assms(2) by (cases s) auto
  then have "BASE = c # (s' @ us)" using b by simp
  then have "tl BASE = s' @ us" by (metis list.sel(3))
  then have "hd us \<in> set (tl BASE)" using ne by (simp add: hd_in_set)
  ultimately show False using BASE_h by simp
qed

lemma replace_from_piece:
  assumes "\<And>a b. p \<noteq> a @ BASE @ b"
  shows "replace_from BASE new (p @ BASE @ r) = p @ new @ replace_from BASE new r"
  using assms
proof (induction p)
  case Nil
  show ?case using replace_from_prefix [OF BASE_nonempty, of new r] by simp
next
  case (Cons c cs)
  have np: "\<not> prefix BASE ((c # cs) @ BASE @ r)"
  proof
    assume "prefix BASE ((c # cs) @ BASE @ r)"
    then have "prefix BASE (c # cs)" by (rule BASE_no_straddle) simp
    then obtain t where "c # cs = [] @ BASE @ t" by (auto simp: prefix_def)
    with Cons.prems show False by blast
  qed
  have "\<And>a b. cs \<noteq> a @ BASE @ b"
  proof
    fix a b assume "cs = a @ BASE @ b"
    then have "c # cs = (c # a) @ BASE @ b" by simp
    with Cons.prems show False by blast
  qed
  then have "replace_from BASE new (cs @ BASE @ r) = cs @ new @ replace_from BASE new r"
    by (rule Cons.IH)
  with np show ?case by simp
qed

lemma replace_from_join:
  "(\<forall>p\<in>set ps. \<forall>a b. p \<noteq> a @ BASE @ b) \<Longrightarrow>
     replace_from BASE [] (join_with BASE ps) = concat ps"
proof (induction ps)
  case Nil
  show ?case by simp
next
  case (Cons p ps)
  then have f: "\<And>a b. p \<noteq> a @ BASE @ b" by simp
  show ?case
  proof (cases ps)
    case Nil
    then show ?thesis using replace_from_absent [of p BASE "[]"] f by simp
  next
    case (Cons q qs)
    have "replace_from BASE [] (join_with BASE ps) = concat ps"
      using Cons.prems by (intro Cons.IH) simp
    then show ?thesis
      using replace_from_piece [OF f, of "[]" "join_with BASE ps"] Cons by simp
  qed
qed

lemma url_path_join:
  "(\<forall>p\<in>set ps. \<forall>a b. p \<noteq> a @ BASE @ b) \<Longrightarrow>
     url_path (join_with BASE ps) = strip_chars (\<lambda>c. c = CHR ''/'') (concat ps)"
  by (simp add: url_path_def str_replace_def BASE_nonempty replace_from_join)

lemma split_first_None: "split_first sep u = None \<Longrightarrow> u \<noteq> a @ sep @ b"
proof (induction u arbitrary: a)
  case Nil
  then show ?case by (auto split: if_splits)
next
  case (Cons c cs)
  from Cons.prems have np: "\<not> prefix sep (c # cs)" and r: "split_first sep cs = None"
    by (auto split: if_splits)
  show ?case
  proof
    assume e: "c # cs = a @ sep @ b"
    show False
    proof (cases a)
      case Nil
      with e np show False by (auto simp: prefix_def)
    next
      case (Cons d a')
      with e have "cs = a' @ sep @ b" by simp
      with Cons.IH [OF r, of a'] show False by simp
    qed
  qed
qed

lemma split_first_Some:
  "split_first sep u = Some (x, y) \<Longrightarrow>
     u = x @ sep @ y \<and> (\<forall>a b. x \<noteq> a @ sep @ b \<or> sep = [])"
proof (induction u arbitrary: x)
  case Nil
  then show ?case by (auto split: if_splits)
next
  case (Cons c cs)
  show ?case
  proof (cases "prefix sep (c # cs)")
    case True
    with Cons.prems have x: "x = []" and y: "y = drop (length sep) (c # cs)" by auto
    from True have "c # cs = sep @ y" unfolding y by (metis append_take_drop_id prefix_def
          append_eq_conv_conj)
    with x show ?thesis by auto
  next
    case False
    with Cons.prems obtain x' where r: "split_first sep cs = Some (x', y)" and x: "x = c # x'"
      by (auto split: if_splits)
    from Cons.IH [OF r] have u: "cs = x' @ sep @ y"
      and f: "\<forall>a b. x' \<noteq> a @ sep @ b \<or> sep = []" by simp_all
    have "\<forall>a b. x \<noteq> a @ sep @ b \<or> sep = []"
    proof (intro allI)
      fix a b
      show "x \<noteq> a @ sep @ b \<or> sep = []"
      proof (cases a)
        case Nil
        show ?thesis
        proof (rule ccontr)
          assume "\<not> (x \<noteq> a @ sep @ b \<or> sep = [])"
          then have "x = sep @ b" using Nil by simp
          then have "c # cs = sep @ (b @ sep @ y)" using x u by simp
          then have "prefix sep (c # cs)" by (metis prefixI)
          with False show False by simp
        qed
      next
        case (Cons d a')
        show ?thesis
        proof (rule ccontr)
          assume "\<not> (x \<noteq> a @ sep @ b \<or> sep = [])"
          then have "x = a @ sep @ b" and "sep \<noteq> []" by simp_all
          then have "x' = a' @ sep @ b" using Cons x by simp
          with f \<open>sep \<noteq> []\<close> show False by blast
        qed
      qed
    qed
    with u x show ?thesis by simp
  qed
qed

lemma pieces_exist:
  "\<exists>ps. ps \<noteq> [] \<and> u = join_with BASE ps \<and> (\<forall>p\<in>set ps. \<forall>a b. p \<noteq> a @ BASE @ b)"
proof (induction "length u" arbitrary: u rule: less_induct)
  case less
  show ?case
  proof (cases "split_first BASE u")
    case None
    then have "\<forall>a b. u \<noteq> a @ BASE @ b" using split_first_None by blast
    then have "[u] \<noteq> [] \<and> u = join_with BASE [u] \<and> (\<forall>p\<in>set [u]. \<forall>a b. p \<noteq> a @ BASE @ b)"
      by simp
    then show ?thesis by blast
  next
    case (Some xy)
    obtain x y where xy: "xy = (x, y)" by (cases xy)
    from split_first_Some [of BASE u x y] Some xy
    have u: "u = x @ BASE @ y" and fx: "\<forall>a b. x \<noteq> a @ BASE @ b"
      using BASE_nonempty by auto
    have "length y < length u" using u BASE_nonempty by simp
    from less [OF this] obtain qs where qs: "qs \<noteq> []" "y = join_with BASE qs"
      "\<forall>p\<in>set qs. \<forall>a b. p \<noteq> a @ BASE @ b" by blast
    obtain q qs' where q: "qs = q # qs'" using qs(1) by (cases qs) auto
    have "u = join_with BASE (x # qs)" using u qs(2) q by simp
    moreover have "\<forall>p\<in>set (x # qs). \<forall>a b. p \<noteq> a @ BASE @ b" using fx qs(3) by simp
    ultimately have "x # qs \<noteq> [] \<and> u = join_with BASE (x # qs)
        \<and> (\<forall>p\<in>set (x # qs). \<forall>a b. p \<noteq> a @ BASE @ b)" by simp
    then show ?thesis by blast
  qed
qed

lemma short_BASE_free: "length p < length BASE \<Longrightarrow> p \<noteq> a @ BASE @ b"
proof
  assume l: "length p < length BASE" and e: "p = a @ BASE @ b"
  from e have "length p = length (a @ BASE @ b)" by (rule arg_cong)
  with l show False by simp
qed

section \<open>Properties of the scanning loop\<close>

lemma probed_append: "probed (xs @ ys) = probed xs @ probed ys"
  by (induction xs rule: probed.induct) simp_all

lemma no_prints_append: "no_prints (xs @ ys) = no_prints xs @ no_prints ys"
  by (induction xs rule: no_prints.induct) simp_all

lemma probe_probed:
  "probed (trace (snd (probe get pfloat i (w, st)))) = probed (trace st) @ [url_of i]"
  by (simp add: probe_def Let_def probed_append split: option.splits)

lemma probe_no_prints:
  "no_prints (trace (snd (probe get pfloat i (w, st)))) = no_prints (trace st) @ [Get (url_of i)]"
  by (simp add: probe_def Let_def no_prints_append split: option.splits)

lemma probe_miss:
  "probe_loc get pfloat w i = None \<Longrightarrow>
     found (snd (probe get pfloat i (w, st))) = found st
     \<and> misses (snd (probe get pfloat i (w, st))) = misses st + 1"
  by (simp add: probe_def Let_def)

lemma probe_hit:
  "probe_loc get pfloat w i = Some l \<Longrightarrow>
     found (snd (probe get pfloat i (w, st))) = dict_set (id' l) l (found st)
     \<and> misses (snd (probe get pfloat i (w, st))) = 0"
  by (simp add: probe_def Let_def)

lemma for_loop_append:
  "for_loop get pfloat T (xs @ ys) ws =
     (case for_loop get pfloat T xs ws of
        (b, r) \<Rightarrow> if b then (True, r) else for_loop get pfloat T ys r)"
  by (induction xs arbitrary: ws) (auto split: prod.splits)

lemma for_loop_low:
  "\<forall>x\<in>set xs. x \<le> 300 \<Longrightarrow> fst (for_loop get pfloat T xs ws) = False"
  by (induction xs arbitrary: ws) (auto split: prod.splits)

lemma for_loop_broken:
  "fst (for_loop get pfloat T xs ws) \<Longrightarrow> T \<le> misses (snd (snd (for_loop get pfloat T xs ws)))"
  by (induction xs arbitrary: ws) (auto split: prod.splits if_splits)

lemma for_loop_last_unbroken:
  assumes "\<not> fst (for_loop get pfloat T (xs @ [i]) ws)"
  shows "\<not> (T \<le> misses (snd (snd (for_loop get pfloat T (xs @ [i]) ws))) \<and> 300 < i)"
proof -
  obtain b w st where f: "for_loop get pfloat T xs ws = (b, w, st)"
    by (cases "for_loop get pfloat T xs ws")
  obtain w1 st1 where p: "probe get pfloat i (w, st) = (w1, st1)"
    by (cases "probe get pfloat i (w, st)")
  from assms f have nb: "\<not> b" by (auto simp: for_loop_append split: if_splits)
  with assms f p show ?thesis by (auto simp: for_loop_append split: if_splits)
qed

lemma for_loop_probed_unbroken:
  "\<not> fst (for_loop get pfloat T xs (w, st)) \<Longrightarrow>
     probed (trace (snd (snd (for_loop get pfloat T xs (w, st))))) = probed (trace st) @ map url_of xs"
proof (induction xs arbitrary: w st)
  case Nil
  show ?case by simp
next
  case (Cons i xs)
  obtain w1 st1 where p: "probe get pfloat i (w, st) = (w1, st1)" by (cases "probe get pfloat i (w, st)")
  have pp: "probed (trace st1) = probed (trace st) @ [url_of i]"
    using probe_probed [of get pfloat i w st] p by simp
  from Cons.prems p have nb: "\<not> (T \<le> misses st1 \<and> 300 < i)" by (auto split: if_splits)
  with Cons.prems p have "\<not> fst (for_loop get pfloat T xs (w1, st1\<lparr>trace := trace st1 @ [Sleep]\<rparr>))"
    by simp
  from Cons.IH [OF this] nb p pp show ?case by (auto simp: probed_append)
qed

lemma for_loop_probed_single:
  "probed (trace (snd (snd (for_loop get pfloat T [i] (w, st))))) = probed (trace st) @ [url_of i]"
proof -
  obtain w1 st1 where p: "probe get pfloat i (w, st) = (w1, st1)"
    by (cases "probe get pfloat i (w, st)")
  have "probed (trace st1) = probed (trace st) @ [url_of i]"
    using probe_probed [of get pfloat i w st] p by simp
  with p show ?thesis by (auto simp: probed_append)
qed

lemma for_loop_probed_prefix:
  "prefix (probed (trace st)) (probed (trace (snd (snd (for_loop get pfloat T xs (w, st))))))"
proof (induction xs arbitrary: w st)
  case Nil
  show ?case by simp
next
  case (Cons i xs)
  obtain w1 st1 where p: "probe get pfloat i (w, st) = (w1, st1)" by (cases "probe get pfloat i (w, st)")
  have pp: "probed (trace st1) = probed (trace st) @ [url_of i]"
    using probe_probed [of get pfloat i w st] p by simp
  show ?case
  proof (cases "T \<le> misses st1 \<and> 300 < i")
    case True
    then show ?thesis using p pp by (simp add: probed_append)
  next
    case False
    have "prefix (probed (trace (st1\<lparr>trace := trace st1 @ [Sleep]\<rparr>)))
       (probed (trace (snd (snd (for_loop get pfloat T xs (w1, st1\<lparr>trace := trace st1 @ [Sleep]\<rparr>))))))"
      by (rule Cons.IH)
    then have "prefix (probed (trace st) @ [url_of i])
       (probed (trace (snd (snd (for_loop get pfloat T xs (w1, st1\<lparr>trace := trace st1 @ [Sleep]\<rparr>))))))"
      using pp by (simp add: probed_append)
    then show ?thesis using False p by (auto dest: append_prefixD)
  qed
qed

section \<open>Properties of the extractor\<close>

lemma parse_Some_iff:
  "parse_store_page pfloat u html = Some l \<longleftrightarrow>
     (\<exists>a b raw lat lng. search_attr lat_key html = Some a \<and> search_attr lng_key html = Some b
        \<and> search_between h3_open ''</h3>'' html = Some raw
        \<and> takeWhile is_digit (url_path u) \<noteq> []
        \<and> pfloat a = Some lat \<and> pfloat b = Some lng
        \<and> l = \<lparr> id' = takeWhile is_digit (url_path u), slug = url_path u,
                 name = store_name (search_between ''<title>'' ''</title>'' html),
                 city_state = fst (heading_fields (normalize_whitespace (sub_tags '' '' raw))),
                 address_line = fst (snd (heading_fields (normalize_whitespace (sub_tags '' '' raw)))),
                 zip_code = snd (snd (heading_fields (normalize_whitespace (sub_tags '' '' raw)))),
                 latitude = lat, longitude = lng, url = u,
                 image_url = store_image (search_img html) \<rparr>)"
  unfolding parse_store_page_def
  by (auto split: option.splits prod.splits)

lemma store_page_parsed:
  "parse_store_page py_float ''https://locations.in-n-out.com/12'' store_page =
     Some \<lparr> id' = ''12'', slug = ''12'', name = ''In-N-Out Burger'',
            city_state = ''Los Angeles, CA'', address_line = ''123 Main St'',
            zip_code = ''90001'', latitude = Finite 34, longitude = Finite (- 118),
            url = ''https://locations.in-n-out.com/12'', image_url = [] \<rparr>"
  by code_simp

lemma store_page_other:
  "parse_store_page py_float ''https://locations.in-n-out.com/12'' (''<b>'' @ store_page) \<noteq> None"
  by code_simp

text \<open>
  Claim C1, as the code has it. The extractor returns a record exactly when the latitude
  marker and the longitude marker are both found and \<^verbatim>\<open>float\<close> accepts their values,
  the street-address heading is found, and the path of the address starts with a digit;
  in every other case it returns nothing. A record it returns carries the two converted
  coordinates.
\<close>

theorem parse_store_page_iff:
  "((\<exists>l. parse_store_page pfloat u html = Some l) \<longleftrightarrow>
      (\<exists>a. search_attr lat_key html = Some a \<and> pfloat a \<noteq> None)
      \<and> (\<exists>b. search_attr lng_key html = Some b \<and> pfloat b \<noteq> None)
      \<and> search_between h3_open ''</h3>'' html \<noteq> None
      \<and> takeWhile is_digit (url_path u) \<noteq> [])
   \<and> (parse_store_page pfloat u html = Some l \<longrightarrow>
        (\<exists>a b. search_attr lat_key html = Some a \<and> pfloat a = Some (latitude l)
               \<and> search_attr lng_key html = Some b \<and> pfloat b = Some (longitude l)))"
  unfolding parse_Some_iff by auto

theorem parse_store_page_iff_witness:
  "(\<exists>l. parse_store_page py_float ''https://locations.in-n-out.com/12'' store_page = Some l)
   \<and> (\<exists>a b. search_attr lat_key store_page = Some a \<and> py_float a = Some (Finite 34)
          \<and> search_attr lng_key store_page = Some b \<and> py_float b = Some (Finite (- 118)))"
  using parse_store_page_iff [of py_float "''https://locations.in-n-out.com/12''" store_page
      "\<lparr> id' = ''12'', slug = ''12'', name = ''In-N-Out Burger'',
            city_state = ''Los Angeles, CA'', address_line = ''123 Main St'',
            zip_code = ''90001'', latitude = Finite 34, longitude = Finite (- 118),
            url = ''https://locations.in-n-out.com/12'', image_url = [] \<rparr>"]
    store_page_parsed
  by simp

text \<open>
  Claim C1 as it is worded leaves the address out: on a page with both markers, valid
  coordinates and the heading, an address whose path starts with a letter gives no
  record.
\<close>

theorem url_without_id_counterexample:
  "parse_store_page py_float ''https://locations.in-n-out.com/about'' store_page = None
   \<and> search_attr lat_key store_page = Some ''34'' \<and> py_float ''34'' = Some (Finite 34)
   \<and> search_attr lng_key store_page = Some ''-118'' \<and> py_float ''-118'' = Some (Finite (- 118))
   \<and> search_between h3_open ''</h3>'' store_page = Some ''Los Angeles, CA - 123 Main St, 90001''"
  by code_simp

text \<open>
  Claim C5, as the code has it. The id of every record the extractor returns is the
  leading run of digits of the path of the address, a non-empty run, whatever the page is;
  an address whose path is empty or starts with another character gives no record on any
  page. The path is the address with every occurrence of the base origin cut out and the
  slashes at both ends removed: every address is made of pieces free of the origin, joined
  by the origin, and its path is these pieces put together, without leading and trailing
  slashes. For an address made of the origin and a rest in which the origin does not
  occur again, the path is that rest without its leading and trailing slashes.
\<close>

theorem extractor_id_from_url:
  "(parse_store_page pfloat u html = Some l \<longrightarrow>
      id' l = takeWhile is_digit (url_path u) \<and> id' l \<noteq> [])
   \<and> (parse_store_page pfloat u html = Some l \<and> parse_store_page pfloat u html2 = Some l2 \<longrightarrow>
      id' l2 = id' l)
   \<and> (url_path u = [] \<or> \<not> is_digit (hd (url_path u)) \<longrightarrow>
      parse_store_page pfloat u html = None)
   \<and> ((\<forall>a b. p \<noteq> a @ BASE @ b) \<longrightarrow>
      url_path (BASE @ p) = strip_chars (\<lambda>c. c = CHR ''/'') p)
   \<and> ((\<forall>p\<in>set ps. \<forall>a b. p \<noteq> a @ BASE @ b) \<longrightarrow>
      url_path (join_with BASE ps) = strip_chars (\<lambda>c. c = CHR ''/'') (concat ps))
   \<and> (\<exists>qs. u = join_with BASE qs \<and> (\<forall>p\<in>set qs. \<forall>a b. p \<noteq> a @ BASE @ b))"
proof (intro conjI impI)
  assume "parse_store_page pfloat u html = Some l"
  then show "id' l = takeWhile is_digit (url_path u)" unfolding parse_Some_iff by auto
next
  assume "parse_store_page pfloat u html = Some l"
  then show "id' l \<noteq> []" unfolding parse_Some_iff by auto
next
  assume "parse_store_page pfloat u html = Some l \<and> parse_store_page pfloat u html2 = Some l2"
  then show "id' l2 = id' l" unfolding parse_Some_iff by auto
next
  assume "url_path u = [] \<or> \<not> is_digit (hd (url_path u))"
  then have "takeWhile is_digit (url_path u) = []" by (cases "url_path u") auto
  then show "parse_store_page pfloat u html = None"
    by (simp add: parse_store_page_def split: option.splits)
next
  assume "\<forall>a b. p \<noteq> a @ BASE @ b"
  then show "url_path (BASE @ p) = strip_chars (\<lambda>c. c = CHR ''/'') p"
    by (intro url_path_after_BASE) blast
next
  assume "\<forall>p\<in>set ps. \<forall>a b. p \<noteq> a @ BASE @ b"
  then show "url_path (join_with BASE ps) = strip_chars (\<lambda>c. c = CHR ''/'') (concat ps)"
    by (rule url_path_join)
next
  from pieces_exist [of u]
  show "\<exists>qs. u = join_with BASE qs \<and> (\<forall>p\<in>set qs. \<forall>a b. p \<noteq> a @ BASE @ b)" by blast
qed

theorem extractor_id_from_url_witness:
  "map_option id' (parse_store_page py_float ''https://locations.in-n-out.com/12'' store_page) = Some ''12''
   \<and> map_option id' (parse_store_page py_float ''https://locations.in-n-out.com/12'' (''<b>'' @ store_page)) = Some ''12''
   \<and> parse_store_page py_float ''/x1'' store_page = None
   \<and> url_path (BASE @ ''/12/'') = ''12''
   \<and> url_path (join_with BASE [''7'', ''/x'']) = ''7/x''"
proof -
  let ?u = "''https://locations.in-n-out.com/12''"
  obtain l where l: "parse_store_page py_float ?u store_page = Some l"
    using store_page_parsed by blast
  obtain l2 where l2: "parse_store_page py_float ?u (''<b>'' @ store_page) = Some l2"
    using store_page_other by blast
  have p: "takeWhile is_digit (url_path ?u) = ''12''" by code_simp
  have q: "url_path ''/x1'' = ''x1''" by code_simp
  have nd: "\<not> is_digit (hd ''x1'')" by code_simp
  have no: "\<forall>a b. ''/12/'' \<noteq> a @ BASE @ b"
    by (intro allI short_BASE_free) (simp add: BASE_def)
  have no2: "\<forall>p\<in>set [''7'', ''/x'']. \<forall>a b. p \<noteq> a @ BASE @ b"
  proof (intro ballI allI short_BASE_free)
    fix p :: string assume "p \<in> set [''7'', ''/x'']"
    then show "length p < length BASE" by (auto simp: BASE_def)
  qed
  have s: "strip_chars (\<lambda>c. c = CHR ''/'') ''/12/'' = ''12''" by code_simp
  have s2: "strip_chars (\<lambda>c. c = CHR ''/'') (concat [''7'', ''/x'']) = ''7/x''" by code_simp
  note t = extractor_id_from_url [of py_float ?u store_page l "''<b>'' @ store_page" l2 "''/12/''"
      "[''7'', ''/x'']"]
  note t2 = extractor_id_from_url [of py_float "''/x1''" store_page]
  have c1: "id' l = ''12''" using t [THEN conjunct1, THEN mp, OF l] p by simp
  have c2: "id' l2 = ''12''"
    using t [THEN conjunct2, THEN conjunct1, THEN mp, OF conjI [OF l l2]] c1 by simp
  have c3: "parse_store_page py_float ''/x1'' store_page = None"
    using t2 [THEN conjunct2, THEN conjunct2, THEN conjunct1] q nd by simp
  have c4: "url_path (BASE @ ''/12/'') = ''12''"
    using t [THEN conjunct2, THEN conjunct2, THEN conjunct2, THEN conjunct1, THEN mp, OF no] s
    by simp
  have c5: "url_path (join_with BASE [''7'', ''/x'']) = ''7/x''"
    using t [THEN conjunct2, THEN conjunct2, THEN conjunct2, THEN conjunct2, THEN conjunct1,
        THEN mp, OF no2] s2 by (simp only:)
  from l l2 c1 c2 c3 c4 c5 show ?thesis by simp
qed

text \<open>
  Claim C5 as it is worded takes the path to be the part of the address after the base
  origin. The code removes the origin wherever it stands. For the address made of the
  origin, \<^verbatim>\<open>/1\<close>, the origin again and \<^verbatim>\<open>2\<close>, the record has the id \<^verbatim>\<open>12\<close>, where
  the part after the origin starts with the digit run \<^verbatim>\<open>1\<close>. For the address made of
  \<^verbatim>\<open>7\<close>, the origin and \<^verbatim>\<open>/x\<close>, the record has the id \<^verbatim>\<open>7\<close>, where the part after
  the origin, \<^verbatim>\<open>x\<close>, starts with no digit and the claim has the extraction fail.
\<close>

theorem origin_inside_url_counterexample:
  "map_option id'
     (parse_store_page py_float
        ''https://locations.in-n-out.com/1https://locations.in-n-out.com2'' store_page)
     = Some ''12''
   \<and> takeWhile is_digit
       (claimed_url_path ''https://locations.in-n-out.com/1https://locations.in-n-out.com2'')
     = ''1''
   \<and> map_option id' (parse_store_page py_float ''7https://locations.in-n-out.com/x'' store_page)
     = Some ''7''
   \<and> claimed_url_path ''7https://locations.in-n-out.com/x'' = ''x''"
  by code_simp

text \<open>
  Claim C6. The heading \<^verbatim>\<open>Los Angeles, CA - 123 Main St, 90001\<close>, which is normalized,
  gives the three fields of the example; the heading \<^verbatim>\<open>123 Main St\<close>, and every
  normalized heading without the separator, becomes the city/state field whole, with the
  address line and the zip code empty. The three fields of a record are the ones computed
  from the normalized, tag-free text of the heading element.
\<close>

theorem heading_examples:
  "heading_fields ''Los Angeles, CA - 123 Main St, 90001'' =
      (''Los Angeles, CA'', ''123 Main St'', ''90001'')
   \<and> normalize_whitespace ''Los Angeles, CA - 123 Main St, 90001'' =
      ''Los Angeles, CA - 123 Main St, 90001''
   \<and> heading_fields ''123 Main St'' = (''123 Main St'', [], [])
   \<and> (split_first '' - '' (normalize_whitespace x) = None \<longrightarrow>
        heading_fields (normalize_whitespace x) = (normalize_whitespace x, [], []))
   \<and> (parse_store_page pfloat u html = Some l \<longrightarrow>
        (\<exists>raw. search_between h3_open ''</h3>'' html = Some raw
           \<and> (city_state l, address_line l, zip_code l) =
               heading_fields (normalize_whitespace (sub_tags '' '' raw))))"
proof (intro conjI impI)
  show "heading_fields ''Los Angeles, CA - 123 Main St, 90001'' =
      (''Los Angeles, CA'', ''123 Main St'', ''90001'')" by code_simp
  show "normalize_whitespace ''Los Angeles, CA - 123 Main St, 90001'' =
      ''Los Angeles, CA - 123 Main St, 90001''" by code_simp
  show "heading_fields ''123 Main St'' = (''123 Main St'', [], [])" by code_simp
next
  assume "split_first '' - '' (normalize_whitespace x) = None"
  then show "heading_fields (normalize_whitespace x) = (normalize_whitespace x, [], [])"
    by (rule heading_fields_no_separator)
next
  assume "parse_store_page pfloat u html = Some l"
  then show "\<exists>raw. search_between h3_open ''</h3>'' html = Some raw
           \<and> (city_state l, address_line l, zip_code l) =
               heading_fields (normalize_whitespace (sub_tags '' '' raw))"
    unfolding parse_Some_iff by auto
qed

theorem heading_examples_witness:
  "heading_fields (normalize_whitespace ''  123   Main St '') = (''123 Main St'', [], [])
   \<and> (\<exists>raw. search_between h3_open ''</h3>'' store_page = Some raw
          \<and> (''Los Angeles, CA'', ''123 Main St'', ''90001'') =
              heading_fields (normalize_whitespace (sub_tags '' '' raw)))"
proof -
  have n: "normalize_whitespace ''  123   Main St '' = ''123 Main St''" by code_simp
  have sp: "split_first '' - '' ''123 Main St'' = None" by code_simp
  from heading_examples [of "''  123   Main St ''" py_float
      "''https://locations.in-n-out.com/12''" store_page
      "\<lparr> id' = ''12'', slug = ''12'', name = ''In-N-Out Burger'',
            city_state = ''Los Angeles, CA'', address_line = ''123 Main St'',
            zip_code = ''90001'', latitude = Finite 34, longitude = Finite (- 118),
            url = ''https://locations.in-n-out.com/12'', image_url = [] \<rparr>"]
    store_page_parsed n sp
  show ?thesis by simp
qed

section \<open>Properties of the scan\<close>

lemma scrape_run_init: "trace (init_state :: 'f scan_state) = [] \<and> found (init_state :: 'f scan_state) = []
    \<and> misses (init_state :: 'f scan_state) = 0"
  by (simp add: init_state_def)

lemma run_unbroken:
  assumes "\<not> (T \<le> misses (scrape_run get pfloat w n T) \<and> 300 < n)"
  shows "\<not> fst (for_loop get pfloat T [1..n] (w, init_state))"
proof
  assume b: "fst (for_loop get pfloat T [1..n] (w, init_state))"
  then have "T \<le> misses (scrape_run get pfloat w n T)"
    unfolding scrape_run_def by (rule for_loop_broken)
  moreover have "300 < n"
  proof (rule ccontr)
    assume "\<not> 300 < n"
    then have "\<forall>x\<in>set [1..n]. x \<le> 300" by auto
    then have "fst (for_loop get pfloat T [1..n] (w, init_state)) = False"
      by (rule for_loop_low)
    with b show False by simp
  qed
  ultimately show False using assms by simp
qed

lemma down_miss: "probe_loc down pfloat w i = None"
  by (simp add: probe_loc_def down_def fetch_body_def)

lemma all_miss_low:
  assumes "\<forall>w i. probe_loc get pfloat w i = None" and "\<forall>x\<in>set xs. x \<le> 300"
  shows "misses (snd (snd (for_loop get pfloat T xs (w, st)))) = misses st + int (length xs)
       \<and> found (snd (snd (for_loop get pfloat T xs (w, st)))) = found st"
  using assms(2)
proof (induction xs arbitrary: w st)
  case Nil
  show ?case by simp
next
  case (Cons i xs)
  obtain w1 st1 where p: "probe get pfloat i (w, st) = (w1, st1)"
    by (cases "probe get pfloat i (w, st)")
  have m: "found st1 = found st \<and> misses st1 = misses st + 1"
    using probe_miss [of get pfloat w i st] assms(1) p by simp
  have "misses (snd (snd (for_loop get pfloat T xs (w1, st1\<lparr>trace := trace st1 @ [Sleep]\<rparr>))))
        = misses (st1\<lparr>trace := trace st1 @ [Sleep]\<rparr>) + int (length xs)
      \<and> found (snd (snd (for_loop get pfloat T xs (w1, st1\<lparr>trace := trace st1 @ [Sleep]\<rparr>))))
        = found (st1\<lparr>trace := trace st1 @ [Sleep]\<rparr>)"
    using Cons.prems by (intro Cons.IH) simp
  with p m Cons.prems show ?case by auto
qed

lemma all_miss_301:
  assumes "\<forall>w i. probe_loc get pfloat w i = None" and "T \<le> 301"
  shows "fst (for_loop get pfloat T [1..301] (w, init_state))
       \<and> misses (scrape_run get pfloat w 301 T) = 301
       \<and> found (scrape_run get pfloat w 301 T) = []"
proof -
  have s: "[1..301] = [1..300] @ [301::int]" using upto_rec2 [of 1 301] by simp
  have ub: "fst (for_loop get pfloat T [1..300] (w, init_state)) = False"
    by (rule for_loop_low) simp
  obtain w1 st1 where r: "for_loop get pfloat T [1..300] (w, init_state) = (False, w1, st1)"
    using ub by (cases "for_loop get pfloat T [1..300] (w, init_state)") auto
  have m: "misses st1 = 300 \<and> found st1 = []"
    using all_miss_low [OF assms(1), of "[1..300]" T w init_state] r
    by (simp add: scrape_run_init)
  obtain w2 st2 where p: "probe get pfloat 301 (w1, st1) = (w2, st2)"
    by (cases "probe get pfloat 301 (w1, st1)")
  have m2: "found st2 = [] \<and> misses st2 = 301"
    using probe_miss [of get pfloat w1 301 st1] assms(1) p m by simp
  show ?thesis
    unfolding scrape_run_def s for_loop_append using r p m2 assms(2) by simp
qed

lemma stop_at_first_id:
  assumes "300 < i" and "i \<le> m"
    and "T \<le> misses (scrape_run get pfloat w i T)"
    and "\<forall>j. 300 < j \<and> j < i \<longrightarrow> misses (scrape_run get pfloat w j T) < T"
  shows "scrape_run get pfloat w m T = scrape_run get pfloat w i T
       \<and> probed (trace (scrape_run get pfloat w m T)) = map url_of [1..i]"
proof -
  have si: "[1..i] = [1..i - 1] @ [i]" using assms(1) upto_rec2 [of 1 i] by simp
  have broke: "fst (for_loop get pfloat T [1..i] (w, init_state))"
  proof (rule ccontr)
    assume "\<not> fst (for_loop get pfloat T [1..i] (w, init_state))"
    then have "\<not> fst (for_loop get pfloat T ([1..i - 1] @ [i]) (w, init_state))"
      using si by simp
    from for_loop_last_unbroken [OF this] assms(1,3) si show False
      by (simp add: scrape_run_def)
  qed
  have sm: "[1..m] = [1..i] @ [i + 1..m]" using assms(1,2) upto_split2 [of 1 i m] by simp
  have eq: "scrape_run get pfloat w m T = scrape_run get pfloat w i T"
    unfolding scrape_run_def sm for_loop_append using broke by (auto split: prod.splits)
  have "\<not> (T \<le> misses (scrape_run get pfloat w (i - 1) T) \<and> 300 < i - 1)"
    using assms(4) [THEN spec, of "i - 1"] by auto
  then have ub: "\<not> fst (for_loop get pfloat T [1..i - 1] (w, init_state))"
    by (rule run_unbroken)
  obtain w1 st1 where r: "for_loop get pfloat T [1..i - 1] (w, init_state) = (False, w1, st1)"
    using ub by (cases "for_loop get pfloat T [1..i - 1] (w, init_state)") auto
  have p1: "probed (trace st1) = map url_of [1..i - 1]"
    using for_loop_probed_unbroken [OF ub] r by (simp add: scrape_run_init)
  have "probed (trace (scrape_run get pfloat w i T)) = probed (trace st1) @ [url_of i]"
    unfolding scrape_run_def using for_loop_probed_single [of get pfloat T i w1 st1] r
    by (simp only: si for_loop_append) simp
  with p1 have "probed (trace (scrape_run get pfloat w i T)) = map url_of [1..i]"
    using si by simp
  with eq show ?thesis by simp
qed



lemma run_step:
  assumes "\<not> fst (for_loop get pfloat T [1..n] (w, init_state))" and "0 \<le> n"
  shows "\<exists>w1. misses (scrape_run get pfloat w (n + 1) T) =
           (case probe_loc get pfloat w1 (n + 1) of
              None \<Rightarrow> misses (scrape_run get pfloat w n T) + 1 | Some l \<Rightarrow> 0)"
proof -
  have s: "[1..n + 1] = [1..n] @ [n + 1]" using assms(2) upto_rec2 [of 1 "n + 1"] by simp
  obtain w1 st1 where r: "for_loop get pfloat T [1..n] (w, init_state) = (False, w1, st1)"
    using assms(1) by (cases "for_loop get pfloat T [1..n] (w, init_state)") auto
  obtain w2 st2 where p: "probe get pfloat (n + 1) (w1, st1) = (w2, st2)"
    by (cases "probe get pfloat (n + 1) (w1, st1)")
  have m: "misses st2 = (case probe_loc get pfloat w1 (n + 1) of
              None \<Rightarrow> misses st1 + 1 | Some l \<Rightarrow> 0)"
    using probe_miss [of get pfloat w1 "n + 1" st1] probe_hit [of get pfloat w1 "n + 1" _ st1] p
    by (cases "probe_loc get pfloat w1 (n + 1)") auto
  have "misses (scrape_run get pfloat w (n + 1) T) = misses st2"
    unfolding scrape_run_def s for_loop_append using r p by auto
  moreover have "misses (scrape_run get pfloat w n T) = misses st1"
    unfolding scrape_run_def using r by simp
  ultimately show ?thesis using m by (intro exI [of _ w1]) (simp split: option.splits)
qed

lemma run_step_miss:
  assumes "\<not> fst (for_loop get pfloat T [1..n] (w, init_state))" and "0 \<le> n"
    and "\<forall>w1. probe_loc get pfloat w1 (n + 1) = None"
  shows "misses (scrape_run get pfloat w (n + 1) T) = misses (scrape_run get pfloat w n T) + 1"
  using run_step [OF assms(1,2)] assms(3) by auto

lemma run_step_hit:
  assumes "\<not> fst (for_loop get pfloat T [1..n] (w, init_state))" and "0 \<le> n"
    and "\<forall>w1. probe_loc get pfloat w1 (n + 1) \<noteq> None"
  shows "misses (scrape_run get pfloat w (n + 1) T) = 0"
proof -
  obtain w1 where "misses (scrape_run get pfloat w (n + 1) T) =
           (case probe_loc get pfloat w1 (n + 1) of
              None \<Rightarrow> misses (scrape_run get pfloat w n T) + 1 | Some l \<Rightarrow> 0)"
    using run_step [OF assms(1,2)] by blast
  moreover obtain l where "probe_loc get pfloat w1 (n + 1) = Some l"
    using assms(3) [THEN spec, of w1] by blast
  ultimately show ?thesis by simp
qed

lemma run_low_probed:
  assumes "m \<le> 300"
  shows "probed (trace (scrape_run get pfloat w m T)) = map url_of [1..m]"
proof -
  have "\<forall>x\<in>set [1..m]. x \<le> 300" using assms by auto
  then have "fst (for_loop get pfloat T [1..m] (w, init_state)) = False" by (rule for_loop_low)
  then have "\<not> fst (for_loop get pfloat T [1..m] (w, init_state))" by simp
  from for_loop_probed_unbroken [OF this] show ?thesis
    by (simp add: scrape_run_def scrape_run_init)
qed

lemma run_probed_301:
  assumes "301 \<le> m"
  shows "prefix (map url_of [1..301]) (probed (trace (scrape_run get pfloat w m T)))"
proof -
  have s: "[1..m] = [1..300] @ [301..m]" using assms upto_split2 [of 1 300 m] by simp
  have s2: "[301..m] = 301 # [302..m]" using assms upto_rec1 [of 301 m] by simp
  have s3: "[1..301] = [1..300] @ [301::int]" using upto_rec2 [of 1 301] by simp
  have ub: "\<not> fst (for_loop get pfloat T [1..300] (w, init_state))"
    using for_loop_low [of "[1..300]" get pfloat T "(w, init_state)"] by simp
  obtain w1 st1 where r: "for_loop get pfloat T [1..300] (w, init_state) = (False, w1, st1)"
    using ub by (cases "for_loop get pfloat T [1..300] (w, init_state)") auto
  have p1: "probed (trace st1) = map url_of [1..300]"
    using for_loop_probed_unbroken [OF ub] r by (simp add: scrape_run_init)
  obtain w2 st2 where p: "probe get pfloat 301 (w1, st1) = (w2, st2)"
    by (cases "probe get pfloat 301 (w1, st1)")
  have p2: "probed (trace st2) = map url_of [1..301]"
    using probe_probed [of get pfloat 301 w1 st1] p p1 s3 by simp
  have fin: "scrape_run get pfloat w m T = snd (snd (for_loop get pfloat T (301 # [302..m]) (w1, st1)))"
    unfolding scrape_run_def s for_loop_append s2 using r by simp
  show ?thesis
  proof (cases "T \<le> misses st2 \<and> 300 < (301::int)")
    case True
    then show ?thesis unfolding fin using p p2 by (simp add: probed_append)
  next
    case False
    have "prefix (probed (trace (st2\<lparr>trace := trace st2 @ [Sleep]\<rparr>)))
      (probed (trace (snd (snd (for_loop get pfloat T [302..m] (w2, st2\<lparr>trace := trace st2 @ [Sleep]\<rparr>))))))"
      by (rule for_loop_probed_prefix)
    then show ?thesis unfolding fin using p p2 False by (simp add: probed_append)
  qed
qed

lemma stop_at_303:
  assumes h300: "\<forall>w1. probe_loc get pfloat w1 300 \<noteq> None"
    and h301: "\<forall>w1. probe_loc get pfloat w1 301 = None"
    and h302: "\<forall>w1. probe_loc get pfloat w1 302 = None"
    and h303: "\<forall>w1. probe_loc get pfloat w1 303 = None"
    and m: "303 \<le> m"
  shows "probed (trace (scrape_run get pfloat w m 3)) = map url_of [1..303]
       \<and> misses (scrape_run get pfloat w m 3) = 3"
proof -
  have u299: "\<not> fst (for_loop get pfloat 3 [1..299] (w, init_state))"
    using for_loop_low [of "[1..299]" get pfloat 3 "(w, init_state)"] by simp
  have m300: "misses (scrape_run get pfloat w 300 3) = 0"
    using run_step_hit [OF u299] h300 by simp
  have u300: "\<not> fst (for_loop get pfloat 3 [1..300] (w, init_state))"
    using for_loop_low [of "[1..300]" get pfloat 3 "(w, init_state)"] by simp
  have m301: "misses (scrape_run get pfloat w 301 3) = 1"
    using run_step_miss [OF u300] h301 m300 by simp
  then have u301: "\<not> fst (for_loop get pfloat 3 [1..301] (w, init_state))"
    by (intro run_unbroken) simp
  have m302: "misses (scrape_run get pfloat w 302 3) = 2"
    using run_step_miss [OF u301] h302 m301 by simp
  then have u302: "\<not> fst (for_loop get pfloat 3 [1..302] (w, init_state))"
    by (intro run_unbroken) simp
  have m303: "misses (scrape_run get pfloat w 303 3) = 3"
    using run_step_miss [OF u302] h303 m302 by simp
  have before: "\<forall>j. 300 < j \<and> j < 303 \<longrightarrow> misses (scrape_run get pfloat w j 3) < 3"
  proof (intro allI impI)
    fix j :: int assume "300 < j \<and> j < 303"
    then have "j = 301 \<or> j = 302" by arith
    then show "misses (scrape_run get pfloat w j 3) < 3" using m301 m302 by auto
  qed
  have "scrape_run get pfloat w m 3 = scrape_run get pfloat w 303 3
       \<and> probed (trace (scrape_run get pfloat w m 3)) = map url_of [1..303]"
    using m m303 before by (intro stop_at_first_id) simp_all
  with m303 show ?thesis by metis
qed

lemma only_300_outcomes:
  "probe_loc only_300 py_float () 300 \<noteq> None" "probe_loc only_300 py_float () 301 = None"
  "probe_loc only_300 py_float () 302 = None" "probe_loc only_300 py_float () 303 = None"
  by code_simp+

lemma probe_loc_failed:
  "fst (get w (url_of i)) = Raised \<or>
     (\<exists>c t f. fst (get w (url_of i)) = Response c t f \<and> (c \<noteq> 200 \<or> t = []))
   \<Longrightarrow> probe_loc get pfloat w i = None"
  by (auto simp: probe_loc_def fetch_body_def)

lemma probe_loc_ok:
  "fst (get w (url_of i)) = Response 200 t f \<Longrightarrow> t \<noteq> [] \<Longrightarrow>
     probe_loc get pfloat w i = parse_store_page pfloat (url_of i) t"
  by (simp add: probe_loc_def fetch_body_def)

lemma all_failed_low:
  assumes "\<forall>w i. fst (get w (url_of i)) = Raised" and "0 \<le> m" and "m \<le> 300"
  shows "probed (trace (scrape_run get pfloat w m T)) = map url_of [1..m]
       \<and> misses (scrape_run get pfloat w m T) = m \<and> found (scrape_run get pfloat w m T) = []"
proof -
  have miss: "\<forall>w i. probe_loc get pfloat w i = None"
  proof (intro allI)
    fix w i
    from assms(1) have "fst (get w (url_of i)) = Raised" by simp
    then show "probe_loc get pfloat w i = None" by (simp add: probe_loc_def fetch_body_def)
  qed
  have low: "\<forall>x\<in>set [1..m]. x \<le> 300" using assms(3) by auto
  have "misses (snd (snd (for_loop get pfloat T [1..m] (w, init_state)))) =
          misses (init_state :: 'b scan_state) + int (length [1..m])
      \<and> found (snd (snd (for_loop get pfloat T [1..m] (w, init_state)))) =
          found (init_state :: 'b scan_state)"
    using miss low by (rule all_miss_low)
  then have "misses (scrape_run get pfloat w m T) = m \<and> found (scrape_run get pfloat w m T) = []"
    unfolding scrape_run_def using assms(2) by (simp add: scrape_run_init)
  moreover have "probed (trace (scrape_run get pfloat w m T)) = map url_of [1..m]"
    using assms(3) by (rule run_low_probed)
  ultimately show ?thesis by simp
qed

text \<open>
  Claim C3, as the code has it. The floor, the constant 300 of the source, only gates the
  test: a scan bounded by an id at or below 300 requests every id up to its bound, and a
  longer scan always requests the ids 1 to 301, whatever the threshold and the outcomes
  are. The counter itself is not reset at the floor. With a threshold of 3, a hit at id
  300 followed by misses at ids 301, 302 and 303 halts the scan at id 303 for every
  \<open>max_id\<close> from 303 on.
\<close>

theorem floor_gates_the_stop:
  "(m \<le> 300 \<longrightarrow> probed (trace (scrape_run get pfloat w m T)) = map url_of [1..m])
   \<and> (301 \<le> m \<longrightarrow> prefix (map url_of [1..301]) (probed (trace (scrape_run get pfloat w m T))))
   \<and> ((\<forall>w1. probe_loc get pfloat w1 300 \<noteq> None) \<and> (\<forall>w1. probe_loc get pfloat w1 301 = None)
        \<and> (\<forall>w1. probe_loc get pfloat w1 302 = None) \<and> (\<forall>w1. probe_loc get pfloat w1 303 = None)
        \<and> 303 \<le> m \<longrightarrow>
       probed (trace (scrape_run get pfloat w m 3)) = map url_of [1..303]
       \<and> misses (scrape_run get pfloat w m 3) = 3)"
  using run_low_probed [of m get pfloat w T] run_probed_301 [of m get pfloat w T]
    stop_at_303 [of get pfloat m w]
  by blast

theorem floor_gates_the_stop_witness:
  "probed (trace (scrape_run only_300 py_float () 2 3)) = map url_of [1..2]
   \<and> prefix (map url_of [1..301]) (probed (trace (scrape_run only_300 py_float () 1200 3)))
   \<and> probed (trace (scrape_run only_300 py_float () 1200 3)) = map url_of [1..303]
   \<and> misses (scrape_run only_300 py_float () 1200 3) = 3"
proof -
  have h: "(\<forall>w1. probe_loc only_300 py_float w1 300 \<noteq> None)
      \<and> (\<forall>w1. probe_loc only_300 py_float w1 301 = None)
      \<and> (\<forall>w1. probe_loc only_300 py_float w1 302 = None)
      \<and> (\<forall>w1. probe_loc only_300 py_float w1 303 = None)"
    using only_300_outcomes by simp
  have a: "(2::int) \<le> 300" and b: "(301::int) \<le> 1200" and c: "(303::int) \<le> 1200" by simp_all
  show ?thesis
    using floor_gates_the_stop [of 2 only_300 py_float "()" 3]
      floor_gates_the_stop [of 1200 only_300 py_float "()" 3] h a b c
    by blast
qed

text \<open>
  Claim C3 as it is worded says that misses at or below the floor do not count. On a site
  that fails every request, with a threshold of 3, the scan halts at id 301 with a
  counter of 301: the misses at the ids 1 to 300 are all in it, and one miss above the
  floor is enough.
\<close>

theorem misses_below_floor_counterexample:
  "probed (trace (scrape_run down py_float () 1200 3)) = map url_of [1..301]
   \<and> misses (scrape_run down py_float () 1200 3) = 301"
proof -
  have dm: "\<forall>w i. probe_loc down py_float w i = None" by (simp add: down_miss)
  have m: "misses (scrape_run down py_float () 301 3) = 301"
    using all_miss_301 [OF dm, of 3 "()"] by simp
  have a: "(3::int) \<le> misses (scrape_run down py_float () 301 3)" using m by simp
  have b: "\<forall>j::int. 300 < j \<and> j < 301 \<longrightarrow> misses (scrape_run down py_float () j 3) < 3"
    by auto
  have c: "(300::int) < 301" and d: "(301::int) \<le> 1200" by simp_all
  from stop_at_first_id [OF c d a b] m show ?thesis by metis
qed

text \<open>
  Claim C4, as the code has it. When the request for id \<open>i\<close> raises, or its response has
  a status other than 200 or an empty text, the iteration has no record: the dictionary
  stays as it is and the counter goes up by one. When the response has status 200 and a
  non-empty text, the record of the iteration is what the extractor returns on that text
  and the address built from \<open>i\<close>. A site where every request raises does not end the
  scan: bounded by an id up to 300 it requests every id and counts each as a miss.
\<close>

theorem failed_fetch_is_a_miss:
  "(fst (get w (url_of i)) = Raised
      \<or> (\<exists>c t f. fst (get w (url_of i)) = Response c t f \<and> (c \<noteq> 200 \<or> t = [])) \<longrightarrow>
      probe_loc get pfloat w i = None
      \<and> found (snd (probe get pfloat i (w, st))) = found st
      \<and> misses (snd (probe get pfloat i (w, st))) = misses st + 1)
   \<and> (fst (get w (url_of i)) = Response 200 t f \<and> t \<noteq> [] \<longrightarrow>
      probe_loc get pfloat w i = parse_store_page pfloat (url_of i) t)
   \<and> ((\<forall>w1 j. fst (get w1 (url_of j)) = Raised) \<and> 0 \<le> m \<and> m \<le> 300 \<longrightarrow>
      probed (trace (scrape_run get pfloat w m T)) = map url_of [1..m]
      \<and> misses (scrape_run get pfloat w m T) = m \<and> found (scrape_run get pfloat w m T) = [])"
proof -
  have c1: "fst (get w (url_of i)) = Raised
      \<or> (\<exists>c t f. fst (get w (url_of i)) = Response c t f \<and> (c \<noteq> 200 \<or> t = [])) \<longrightarrow>
      probe_loc get pfloat w i = None
      \<and> found (snd (probe get pfloat i (w, st))) = found st
      \<and> misses (snd (probe get pfloat i (w, st))) = misses st + 1"
  proof (rule impI)
    assume "fst (get w (url_of i)) = Raised
      \<or> (\<exists>c t f. fst (get w (url_of i)) = Response c t f \<and> (c \<noteq> 200 \<or> t = []))"
    then have n: "probe_loc get pfloat w i = None" by (rule probe_loc_failed)
    from probe_miss [OF n, of st] n
    show "probe_loc get pfloat w i = None
      \<and> found (snd (probe get pfloat i (w, st))) = found st
      \<and> misses (snd (probe get pfloat i (w, st))) = misses st + 1" by (simp only: simp_thms)
  qed
  have c2: "fst (get w (url_of i)) = Response 200 t f \<and> t \<noteq> [] \<longrightarrow>
      probe_loc get pfloat w i = parse_store_page pfloat (url_of i) t"
  proof (rule impI)
    assume "fst (get w (url_of i)) = Response 200 t f \<and> t \<noteq> []"
    then have "fst (get w (url_of i)) = Response 200 t f" and "t \<noteq> []" by simp_all
    then show "probe_loc get pfloat w i = parse_store_page pfloat (url_of i) t"
      by (rule probe_loc_ok)
  qed
  have c3: "(\<forall>w1 j. fst (get w1 (url_of j)) = Raised) \<and> 0 \<le> m \<and> m \<le> 300 \<longrightarrow>
      probed (trace (scrape_run get pfloat w m T)) = map url_of [1..m]
      \<and> misses (scrape_run get pfloat w m T) = m \<and> found (scrape_run get pfloat w m T) = []"
  proof (rule impI)
    assume "(\<forall>w1 j. fst (get w1 (url_of j)) = Raised) \<and> 0 \<le> m \<and> m \<le> 300"
    then have a1: "\<forall>w1 j. fst (get w1 (url_of j)) = Raised" and a2: "0 \<le> m" and a3: "m \<le> 300"
      by simp_all
    show "probed (trace (scrape_run get pfloat w m T)) = map url_of [1..m]
       \<and> misses (scrape_run get pfloat w m T) = m \<and> found (scrape_run get pfloat w m T) = []"
      using a1 a2 a3 by (rule all_failed_low)
  qed
  from c1 c2 c3 show ?thesis by (intro conjI)
qed

theorem failed_fetch_is_a_miss_witness:
  "probe_loc down py_float () 7 = None
   \<and> misses (snd (probe down py_float 7 ((), init_state))) = 1
   \<and> probe_loc only_300 py_float () 300 = parse_store_page py_float (url_of 300) store_page
   \<and> probed (trace (scrape_run down py_float () 2 180)) = map url_of [1..2]
   \<and> misses (scrape_run down py_float () 2 180) = 2"
proof -
  have a: "fst (down () (url_of 7)) = Raised
      \<or> (\<exists>c t f. fst (down () (url_of 7)) = Response c t f \<and> (c \<noteq> 200 \<or> t = []))"
    by (simp add: down_def)
  have b: "fst (only_300 () (url_of 300)) = Response 200 store_page (url_of 300) \<and> store_page \<noteq> []"
    by code_simp
  have c: "(\<forall>w1 j. fst (down w1 (url_of j)) = Raised) \<and> (0::int) \<le> 2 \<and> (2::int) \<le> 300"
    by (simp add: down_def)
  have i: "misses (init_state :: pyfloat scan_state) = 0" by (simp add: init_state_def)
  note t1 = failed_fetch_is_a_miss [of down "()" 7 py_float init_state store_page "url_of 7" 2 180]
  note t2 = failed_fetch_is_a_miss [of only_300 "()" 300 py_float init_state store_page "url_of 300" 2 180]
  note r1 = t1 [THEN conjunct1, THEN mp, OF a]
  note r2 = t2 [THEN conjunct2, THEN conjunct1, THEN mp, OF b]
  note r3 = t1 [THEN conjunct2, THEN conjunct2, THEN mp, OF c]
  from r1 r2 r3 i show ?thesis by simp
qed

text \<open>
  Claim C4 as it is worded passes every successful non-empty response to the extractor.
  A response with status 201 whose text is a page the extractor accepts is dropped: the
  iteration has no record and the scan returns an empty dictionary.
\<close>

theorem status_201_counterexample:
  "fst (created () (url_of 1)) = Response 201 store_page (url_of 1)
   \<and> store_page \<noteq> []
   \<and> parse_store_page py_float (url_of 1) store_page \<noteq> None
   \<and> probe_loc created py_float () 1 = None
   \<and> scrape_by_ids created py_float () 1 180 = []"
  by code_simp

lemma upto_decomp:
  assumes "[a..b] = ys @ k # zs"
  shows "ys = [a..k - 1] \<and> a \<le> k \<and> k \<le> b"
proof -
  have "k \<in> set [a..b]" using assms by simp
  then have r: "a \<le> k" "k \<le> b" by simp_all
  then have s: "[a..b] = [a..k - 1] @ k # [k + 1..b]" by (rule upto_split3)
  have "distinct (ys @ k # zs)" using assms distinct_upto [of a b] by simp
  then have n1: "k \<notin> set ys" and n2: "k \<notin> set zs" by simp_all
  have "ys @ k # zs = [a..k - 1] @ k # [k + 1..b]" using assms s by simp
  then have "ys = [a..k - 1]" using append_Cons_eq_iff [OF n1 n2] by blast
  with r show ?thesis by simp
qed

lemma for_loop_no_prints:
  "(fst (for_loop get pfloat T xs (w, st)) \<longrightarrow>
      (\<exists>ys k zs. xs = ys @ k # zs \<and> 300 < k
         \<and> no_prints (trace (snd (snd (for_loop get pfloat T xs (w, st))))) =
             no_prints (trace st) @ concat (map (\<lambda>j. [Get (url_of j), Sleep]) ys) @ [Get (url_of k)]))
   \<and> (\<not> fst (for_loop get pfloat T xs (w, st)) \<longrightarrow>
      no_prints (trace (snd (snd (for_loop get pfloat T xs (w, st))))) =
        no_prints (trace st) @ concat (map (\<lambda>j. [Get (url_of j), Sleep]) xs))"
proof (induction xs arbitrary: w st)
  case Nil
  show ?case by simp
next
  case (Cons i xs)
  obtain w1 st1 where p: "probe get pfloat i (w, st) = (w1, st1)"
    by (cases "probe get pfloat i (w, st)")
  have np: "no_prints (trace st1) = no_prints (trace st) @ [Get (url_of i)]"
    using probe_no_prints [of get pfloat i w st] p by simp
  show ?case
  proof (cases "T \<le> misses st1 \<and> 300 < i")
    case True
    have "i # xs = [] @ i # xs" by simp
    moreover have "300 < i" using True by simp
    moreover have "no_prints (trace (snd (snd (for_loop get pfloat T (i # xs) (w, st))))) =
        no_prints (trace st) @ concat (map (\<lambda>j. [Get (url_of j), Sleep]) []) @ [Get (url_of i)]"
      using True p np by (simp add: no_prints_append)
    moreover have "fst (for_loop get pfloat T (i # xs) (w, st))" using True p by simp
    ultimately show ?thesis by blast
  next
    case False
    let ?st2 = "st1\<lparr>trace := trace st1 @ [Sleep]\<rparr>"
    have eq: "for_loop get pfloat T (i # xs) (w, st) = for_loop get pfloat T xs (w1, ?st2)"
      using False p by auto
    have np2: "no_prints (trace ?st2) = no_prints (trace st) @ [Get (url_of i), Sleep]"
      using np by (simp add: no_prints_append)
    show ?thesis
    proof (cases "fst (for_loop get pfloat T xs (w1, ?st2))")
      case True
      then obtain ys k zs where d: "xs = ys @ k # zs" "300 < k"
        "no_prints (trace (snd (snd (for_loop get pfloat T xs (w1, ?st2))))) =
             no_prints (trace ?st2) @ concat (map (\<lambda>j. [Get (url_of j), Sleep]) ys) @ [Get (url_of k)]"
        using Cons.IH [of w1 ?st2] by blast
      have "i # xs = (i # ys) @ k # zs" using d(1) by simp
      moreover have "no_prints (trace (snd (snd (for_loop get pfloat T (i # xs) (w, st))))) =
          no_prints (trace st) @ concat (map (\<lambda>j. [Get (url_of j), Sleep]) (i # ys)) @ [Get (url_of k)]"
        using d(3) np2 eq by simp
      ultimately show ?thesis using True eq d(2) by (simp only: simp_thms) blast
    next
      case False
      then have "no_prints (trace (snd (snd (for_loop get pfloat T xs (w1, ?st2))))) =
        no_prints (trace ?st2) @ concat (map (\<lambda>j. [Get (url_of j), Sleep]) xs)"
        using Cons.IH [of w1 ?st2] by blast
      then show ?thesis using False eq np2 by simp
    qed
  qed
qed

lemma scan_trace_shape:
  "(\<not> fst (for_loop get pfloat T [1..m] (w, init_state)) \<longrightarrow>
      no_prints (trace (scrape_run get pfloat w m T)) =
        concat (map (\<lambda>j. [Get (url_of j), Sleep]) [1..m]))
   \<and> (fst (for_loop get pfloat T [1..m] (w, init_state)) \<longrightarrow>
      (\<exists>k. 300 < k \<and> k \<le> m
         \<and> no_prints (trace (scrape_run get pfloat w m T)) =
             concat (map (\<lambda>j. [Get (url_of j), Sleep]) [1..k - 1]) @ [Get (url_of k)]))"
proof (intro conjI impI)
  assume "\<not> fst (for_loop get pfloat T [1..m] (w, init_state))"
  then show "no_prints (trace (scrape_run get pfloat w m T)) =
        concat (map (\<lambda>j. [Get (url_of j), Sleep]) [1..m])"
    using for_loop_no_prints [of get pfloat T "[1..m]" w init_state]
    by (simp add: scrape_run_def scrape_run_init)
next
  assume "fst (for_loop get pfloat T [1..m] (w, init_state))"
  then obtain ys k zs where d: "[1..m] = ys @ k # zs" "300 < k"
    "no_prints (trace (snd (snd (for_loop get pfloat T [1..m] (w, init_state))))) =
       no_prints (trace (init_state :: 'b scan_state))
         @ concat (map (\<lambda>j. [Get (url_of j), Sleep]) ys) @ [Get (url_of k)]"
    using for_loop_no_prints [of get pfloat T "[1..m]" w init_state] by blast
  from upto_decomp [OF d(1)] have "ys = [1..k - 1]" "k \<le> m" by simp_all
  with d(2,3) show "\<exists>k. 300 < k \<and> k \<le> m
         \<and> no_prints (trace (scrape_run get pfloat w m T)) =
             concat (map (\<lambda>j. [Get (url_of j), Sleep]) [1..k - 1]) @ [Get (url_of k)]"
    by (auto simp: scrape_run_def scrape_run_init)
qed

lemma all_miss_301_last:
  assumes "\<forall>w i. probe_loc get pfloat w i = None" and "T \<le> 301"
  shows "no_prints (trace (scrape_run get pfloat w 301 T)) \<noteq> []
       \<and> last (no_prints (trace (scrape_run get pfloat w 301 T))) = Get (url_of 301)"
proof -
  have "fst (for_loop get pfloat T [1..301] (w, init_state))"
    using all_miss_301 [OF assms] by simp
  then obtain k where k: "300 < k" "k \<le> 301"
    "no_prints (trace (scrape_run get pfloat w 301 T)) =
       concat (map (\<lambda>j. [Get (url_of j), Sleep]) [1..k - 1]) @ [Get (url_of k)]"
    using scan_trace_shape [of get pfloat T 301 w] by blast
  from k(1,2) have "k = 301" by simp
  with k(3) show ?thesis by simp
qed

text \<open>
  Claim C9, as the code has it. With the printed lines left out, the trace of a scan that
  runs to \<open>max_id\<close> is a request followed by a sleep for each id from 1 to \<open>max_id\<close>,
  whatever the outcomes; the trace of a scan left by the early stop, at an id \<open>k\<close> above
  the floor, is a request followed by a sleep for each id below \<open>k\<close> and then the request
  for \<open>k\<close>, with no sleep behind it.
\<close>

theorem delay_between_probes:
  "(\<not> fst (for_loop get pfloat T [1..m] (w, init_state)) \<longrightarrow>
      no_prints (trace (scrape_run get pfloat w m T)) =
        concat (map (\<lambda>j. [Get (url_of j), Sleep]) [1..m]))
   \<and> (fst (for_loop get pfloat T [1..m] (w, init_state)) \<longrightarrow>
      (\<exists>k. 300 < k \<and> k \<le> m
         \<and> no_prints (trace (scrape_run get pfloat w m T)) =
             concat (map (\<lambda>j. [Get (url_of j), Sleep]) [1..k - 1]) @ [Get (url_of k)]))"
  by (rule scan_trace_shape)

theorem delay_between_probes_witness:
  "no_prints (trace (scrape_run down py_float () 2 180)) =
      concat (map (\<lambda>j. [Get (url_of j), Sleep]) [1..2])
   \<and> (\<exists>k. 300 < k \<and> k \<le> 301
         \<and> no_prints (trace (scrape_run down py_float () 301 180)) =
             concat (map (\<lambda>j. [Get (url_of j), Sleep]) [1..k - 1]) @ [Get (url_of k)])"
proof -
  have dm: "\<forall>w i. probe_loc down py_float w i = None" by (simp add: down_miss)
  have a: "\<not> fst (for_loop down py_float 180 [1..2] ((), init_state))"
    using for_loop_low [of "[1..2]" down py_float 180 "((), init_state)"] by simp
  have b: "fst (for_loop down py_float 180 [1..301] ((), init_state))"
    using all_miss_301 [OF dm, of 180 "()"] by simp
  note t1 = delay_between_probes [of down py_float 180 2 "()"]
  note t2 = delay_between_probes [of down py_float 180 301 "()"]
  from t1 [THEN conjunct1, THEN mp, OF a] t2 [THEN conjunct2, THEN mp, OF b]
  show ?thesis by (rule conjI)
qed

text \<open>
  Claim C9 as it is worded has a delay after the attempt on which the scan terminates. On
  a site that fails every request, the scan with the parameters of \<^verbatim>\<open>main\<close> ends with
  the request for id 301: the \<^verbatim>\<open>break\<close> of line 124 comes before the sleep of line 126.
\<close>

theorem no_delay_after_last_probe_counterexample:
  "no_prints (trace (scrape_run down py_float () 1200 180)) \<noteq> []
   \<and> last (no_prints (trace (scrape_run down py_float () 1200 180))) = Get (url_of 301)"
proof -
  have dm: "\<forall>w i. probe_loc down py_float w i = None" by (simp add: down_miss)
  have m: "misses (scrape_run down py_float () 301 180) = 301"
    using all_miss_301 [OF dm, of 180 "()"] by simp
  have a: "(180::int) \<le> misses (scrape_run down py_float () 301 180)" using m by simp
  have b: "\<forall>j::int. 300 < j \<and> j < 301 \<longrightarrow> misses (scrape_run down py_float () j 180) < 180"
    by auto
  have c: "(300::int) < 301" and d: "(301::int) \<le> 1200" by simp_all
  have "scrape_run down py_float () 1200 180 = scrape_run down py_float () 301 180"
    using stop_at_first_id [OF c d a b] by (rule conjunct1)
  then show ?thesis using all_miss_301_last [OF dm, of 180 "()"] by simp
qed

lemma keyed_below_mono: "keyed_below b d \<Longrightarrow> b \<le> c \<Longrightarrow> keyed_below c d"
  unfolding keyed_below_def by (meson less_le_trans)

lemma probe_loc_id:
  assumes "probe_loc get pfloat w i = Some l"
  shows "id' l = str_int i \<and> url l = url_of i \<and> 0 \<le> i"
proof -
  from assms obtain html where h: "parse_store_page pfloat (url_of i) html = Some l"
    by (auto simp: probe_loc_def Let_def split: if_splits)
  then have a: "id' l = takeWhile is_digit (url_path (url_of i))"
    and b: "takeWhile is_digit (url_path (url_of i)) \<noteq> []" and c: "url l = url_of i"
    unfolding parse_Some_iff by auto
  have nn: "0 \<le> i"
  proof (rule ccontr)
    assume "\<not> 0 \<le> i"
    then have "i < 0" by simp
    then have "takeWhile is_digit (url_path (url_of i)) = []" by (rule url_path_url_of_neg)
    with b show False by simp
  qed
  then have "url_path (url_of i) = dec (nat i)" by (simp add: url_path_url_of str_int_nonneg)
  then have "id' l = dec (nat i)" using a takeWhile_digits [OF dec_digits] by simp
  with nn c show ?thesis by (simp add: str_int_nonneg)
qed

lemma dict_set_fresh: "k \<notin> fst ` set d \<Longrightarrow> dict_set k v d = d @ [(k, v)]"
  by (induction d) auto

lemma dict_set_keys:
  "map fst (dict_set k v d) = (if k \<in> fst ` set d then map fst d else map fst d @ [k])"
  by (induction d) auto

lemma dict_set_distinct: "distinct (map fst d) \<Longrightarrow> distinct (map fst (dict_set k v d))"
  by (simp add: dict_set_keys)

lemma keyed_below_fresh:
  assumes "keyed_below b d" and "b \<le> i"
  shows "str_int i \<notin> fst ` set d"
proof
  assume "str_int i \<in> fst ` set d"
  then obtain kv where kv: "kv \<in> set d" "fst kv = str_int i" by force
  with assms(1) obtain j where j: "1 \<le> j" "j < b" "fst kv = str_int j"
    unfolding keyed_below_def by blast
  have "str_int i = str_int j" using kv(2) j(3) by simp
  moreover have "0 \<le> i" "0 \<le> j" using j(1,2) assms(2) by simp_all
  ultimately have "i = j" using str_int_inj by blast
  with j(2) assms(2) show False by simp
qed

lemma probe_inv:
  assumes "keyed_below b (found st)" and "b \<le> i" and "1 \<le> b"
  shows "keyed_below (i + 1) (found (snd (probe get pfloat i (w, st))))
       \<and> prefix (found st) (found (snd (probe get pfloat i (w, st))))
       \<and> length (found (snd (probe get pfloat i (w, st)))) \<le> length (found st) + 1"
proof (cases "probe_loc get pfloat w i")
  case None
  from probe_miss [OF None, of st] assms show ?thesis
    using keyed_below_mono [of b "found st" "i + 1"] by simp
next
  case (Some l)
  have idl: "id' l = str_int i" "url l = url_of i" using probe_loc_id [OF Some] by simp_all
  have fresh: "str_int i \<notin> fst ` set (found st)" using assms(1,2) by (rule keyed_below_fresh)
  have f: "found (snd (probe get pfloat i (w, st))) = found st @ [(str_int i, l)]"
    using probe_hit [OF Some, of st] idl(1) dict_set_fresh [OF fresh] by simp
  have old: "keyed_below (i + 1) (found st)"
    using assms(1) by (rule keyed_below_mono) (use assms(2) in simp)
  have "keyed_below (i + 1) (found st @ [(str_int i, l)])"
    unfolding keyed_below_def
  proof
    fix kv assume "kv \<in> set (found st @ [(str_int i, l)])"
    then consider "kv \<in> set (found st)" | "kv = (str_int i, l)" by auto
    then show "\<exists>j. 1 \<le> j \<and> j < i + 1 \<and> fst kv = str_int j \<and> id' (snd kv) = str_int j
        \<and> url (snd kv) = url_of j"
    proof cases
      case 1
      then show ?thesis using old unfolding keyed_below_def by blast
    next
      case 2
      then show ?thesis using idl assms(2,3) by (intro exI [of _ i]) simp
    qed
  qed
  with f show ?thesis by simp
qed

lemma probe_distinct:
  "distinct (map fst (found st)) \<Longrightarrow> distinct (map fst (found (snd (probe get pfloat i (w, st)))))"
  by (cases "probe_loc get pfloat w i")
     (simp_all add: probe_miss probe_hit dict_set_distinct)

lemma for_loop_distinct:
  "distinct (map fst (found st)) \<Longrightarrow>
     distinct (map fst (found (snd (snd (for_loop get pfloat T xs (w, st))))))"
proof (induction xs arbitrary: w st)
  case Nil
  then show ?case by simp
next
  case (Cons i xs)
  obtain w1 st1 where p: "probe get pfloat i (w, st) = (w1, st1)"
    by (cases "probe get pfloat i (w, st)")
  have d1: "distinct (map fst (found st1))"
    using probe_distinct [OF Cons.prems, of get pfloat i w] p by simp
  then have "distinct (map fst (found (st1\<lparr>trace := trace st1 @ [Sleep]\<rparr>)))" by simp
  from Cons.IH [OF this, of w1] d1 p show ?case by auto
qed

lemma for_loop_inv:
  assumes "keyed_below b (found st)" and "1 \<le> b" and "sorted_wrt (<) xs"
    and "\<forall>x\<in>set xs. b \<le> x" and "\<forall>x\<in>set xs. x < c" and "b \<le> c"
  shows "keyed_below c (found (snd (snd (for_loop get pfloat T xs (w, st)))))
       \<and> prefix (found st) (found (snd (snd (for_loop get pfloat T xs (w, st)))))"
  using assms
proof (induction xs arbitrary: b w st)
  case Nil
  then show ?case using keyed_below_mono by auto
next
  case (Cons i xs)
  obtain w1 st1 where p: "probe get pfloat i (w, st) = (w1, st1)"
    by (cases "probe get pfloat i (w, st)")
  have bi: "b \<le> i" and ic: "i + 1 \<le> c" using Cons.prems(4,5) by simp_all
  have inv1: "keyed_below (i + 1) (found st1)" and pre1: "prefix (found st) (found st1)"
    using probe_inv [OF Cons.prems(1) bi Cons.prems(2), of get pfloat w] p by simp_all
  show ?case
  proof (cases "T \<le> misses st1 \<and> 300 < i")
    case True
    then show ?thesis using p inv1 pre1 keyed_below_mono [OF inv1 ic] by simp
  next
    case False
    let ?st2 = "st1\<lparr>trace := trace st1 @ [Sleep]\<rparr>"
    have a1: "keyed_below (i + 1) (found ?st2)" using inv1 by simp
    have a2: "1 \<le> i + 1" using bi Cons.prems(2) by simp
    have a3: "sorted_wrt (<) xs" using Cons.prems(3) by simp
    have a4: "\<forall>x\<in>set xs. i + 1 \<le> x" using Cons.prems(3) by auto
    have a5: "\<forall>x\<in>set xs. x < c" using Cons.prems(5) by simp
    from Cons.IH [OF a1 a2 a3 a4 a5 ic, of w1]
    have "keyed_below c (found (snd (snd (for_loop get pfloat T xs (w1, ?st2)))))"
      and "prefix (found st1) (found (snd (snd (for_loop get pfloat T xs (w1, ?st2)))))"
      by simp_all
    then show ?thesis using False p pre1 by (auto intro: prefix_order.trans)
  qed
qed

lemma keyed_below_init: "keyed_below 1 (found (init_state :: 'f scan_state))"
  by (simp add: keyed_below_def init_state_def)

lemma run_keyed: "keyed_below (max 1 (m + 1)) (found (scrape_run get pfloat w m T))"
  unfolding scrape_run_def
  using for_loop_inv [OF keyed_below_init, of "[1..m]" "max 1 (m + 1)" get pfloat T w]
  by simp

lemma run_empty: "m \<le> 0 \<Longrightarrow> found (scrape_run get pfloat w m T) = []"
  by (simp add: scrape_run_def init_state_def)

lemma run_prefix:
  assumes "n \<le> m"
  shows "prefix (found (scrape_run get pfloat w n T)) (found (scrape_run get pfloat w m T))"
proof (cases "n \<le> 0")
  case True
  then show ?thesis by (simp add: run_empty)
next
  case False
  then have s: "[1..m] = [1..n] @ [n + 1..m]" using assms upto_split2 [of 1 n m] by simp
  obtain b w1 st1 where r: "for_loop get pfloat T [1..n] (w, init_state) = (b, w1, st1)"
    by (cases "for_loop get pfloat T [1..n] (w, init_state)")
  have k: "keyed_below (n + 1) (found st1)"
    using run_keyed [of n get pfloat w T] r False by (simp add: scrape_run_def max_def)
  show ?thesis
  proof (cases b)
    case True
    then show ?thesis unfolding scrape_run_def s for_loop_append using r by simp
  next
    case nb: False
    have "prefix (found st1) (found (snd (snd (for_loop get pfloat T [n + 1..m] (w1, st1)))))"
      using for_loop_inv [OF k, of "[n + 1..m]" "m + 1" get pfloat T w1] False assms by simp
    then show ?thesis unfolding scrape_run_def s for_loop_append using r nb by simp
  qed
qed

lemma run_grows_by_one:
  "length (found (scrape_run get pfloat w (n + 1) T)) \<le> length (found (scrape_run get pfloat w n T)) + 1"
proof (cases "n < 0")
  case True
  then show ?thesis by (simp add: run_empty)
next
  case False
  then have s: "[1..n + 1] = [1..n] @ [n + 1]" using upto_rec2 [of 1 "n + 1"] by simp
  obtain b w1 st1 where r: "for_loop get pfloat T [1..n] (w, init_state) = (b, w1, st1)"
    by (cases "for_loop get pfloat T [1..n] (w, init_state)")
  have k: "keyed_below (n + 1) (found st1)"
    using run_keyed [of n get pfloat w T] r False by (simp add: scrape_run_def max_def)
  obtain w2 st2 where p: "probe get pfloat (n + 1) (w1, st1) = (w2, st2)"
    by (cases "probe get pfloat (n + 1) (w1, st1)")
  have l: "length (found st2) \<le> length (found st1) + 1"
    using probe_inv [OF k, of "n + 1" get pfloat w1] p False by simp
  show ?thesis unfolding scrape_run_def s for_loop_append using r p l by auto
qed

lemma run_distinct: "distinct (map fst (found (scrape_run get pfloat w m T)))"
  unfolding scrape_run_def by (rule for_loop_distinct) (simp add: init_state_def)

lemma serving_two:
  "map fst (scrape_by_ids serving py_float () 2 180) = [''1'', ''2'']"
  by code_simp

lemma serving_loc:
  "probe_loc serving py_float () 2 =
     Some \<lparr> id' = ''2'', slug = ''2'', name = ''In-N-Out Burger'',
            city_state = ''Los Angeles, CA'', address_line = ''123 Main St'',
            zip_code = ''90001'', latitude = Finite 34, longitude = Finite (- 118),
            url = ''https://locations.in-n-out.com/2'', image_url = [] \<rparr>"
  by code_simp

lemma run_items:
  assumes "kv \<in> set (scrape_by_ids get pfloat w m T)"
  shows "\<exists>j. 1 \<le> j \<and> j \<le> m \<and> fst kv = str_int j \<and> id' (snd kv) = str_int j
            \<and> url (snd kv) = url_of j"
proof -
  from run_keyed [of m get pfloat w T] assms
  obtain j where j: "1 \<le> j" "j < max 1 (m + 1)" "fst kv = str_int j"
    "id' (snd kv) = str_int j" "url (snd kv) = url_of j"
    unfolding keyed_below_def scrape_by_ids_def by blast
  from j(1,2) have "j \<le> m" by simp
  with j show ?thesis by blast
qed

lemma run_later_key_fresh:
  assumes "m < i"
  shows "str_int i \<notin> fst ` set (scrape_by_ids get pfloat w m T)"
proof -
  have "keyed_below (max 1 (m + 1)) (scrape_by_ids get pfloat w m T)"
    unfolding scrape_by_ids_def by (rule run_keyed)
  moreover have "max 1 (m + 1) \<le> i \<or> i \<le> 0" using assms by auto
  ultimately show ?thesis
  proof (cases "i \<le> 0")
    case True
    then have "m \<le> 0" using assms by simp
    then show ?thesis by (simp add: scrape_by_ids_def run_empty)
  next
    case False
    then have "max 1 (m + 1) \<le> i" using assms by simp
    with \<open>keyed_below (max 1 (m + 1)) (scrape_by_ids get pfloat w m T)\<close>
    show ?thesis by (rule keyed_below_fresh)
  qed
qed

lemma run_passes_through:
  assumes "1 \<le> n" and "n \<le> m"
  shows "for_loop get pfloat T [1..m] (w, init_state) =
     (case for_loop get pfloat T [1..n] (w, init_state) of
        (b, r) \<Rightarrow> if b then (True, r) else for_loop get pfloat T [n + 1..m] r)"
proof -
  have "[1..m] = [1..n] @ [n + 1..m]" using assms by (rule upto_split2)
  then show ?thesis by (simp only: for_loop_append)
qed

text \<open>
  Claim C8. The states of the dictionary during a scan are the dictionaries returned by
  the scans with a smaller \<open>max_id\<close>: a scan bounded by \<open>m\<close> goes through the state in
  which the scan bounded by \<open>n \<le> m\<close> returns (lemma \<open>run_passes_through\<close>), and stays
  there when that scan was left by the early stop. The dictionary is empty before the first id; the
  dictionary reached at an id is an initial segment of the one reached at any later id,
  items and values alike, so nothing once inserted is replaced, changed or removed; one
  more id adds at most one item; and the keys are pairwise different.
\<close>

theorem result_only_grows:
  "(m \<le> 0 \<longrightarrow> scrape_by_ids get pfloat w m T = [])
   \<and> (n \<le> m \<longrightarrow> prefix (scrape_by_ids get pfloat w n T) (scrape_by_ids get pfloat w m T))
   \<and> length (scrape_by_ids get pfloat w (n + 1) T) \<le> length (scrape_by_ids get pfloat w n T) + 1
   \<and> distinct (map fst (scrape_by_ids get pfloat w m T))"
  unfolding scrape_by_ids_def
  using run_empty [of m get pfloat w T] run_prefix [of n m get pfloat w T]
    run_grows_by_one [of get pfloat w n T] run_distinct [of get pfloat w m T]
  by (intro conjI impI)

theorem result_only_grows_witness:
  "scrape_by_ids serving py_float () 0 180 = []
   \<and> prefix (scrape_by_ids serving py_float () 1 180) (scrape_by_ids serving py_float () 2 180)
   \<and> length (scrape_by_ids serving py_float () 2 180)
        \<le> length (scrape_by_ids serving py_float () 1 180) + 1
   \<and> distinct (map fst (scrape_by_ids serving py_float () 2 180))
   \<and> map fst (scrape_by_ids serving py_float () 2 180) = [''1'', ''2'']"
proof -
  note t0 = result_only_grows [of 0 serving py_float "()" 180 0]
  note t2 = result_only_grows [of 2 serving py_float "()" 180 1]
  have a: "(0::int) \<le> 0" and b: "(1::int) \<le> 2" by simp_all
  have c: "(1::int) + 1 = 2" by simp
  from t0 [THEN conjunct1, THEN mp, OF a]
    t2 [THEN conjunct2, THEN conjunct1, THEN mp, OF b]
    t2 [THEN conjunct2, THEN conjunct2, THEN conjunct1]
    t2 [THEN conjunct2, THEN conjunct2, THEN conjunct2]
    serving_two c
  show ?thesis by simp
qed

text \<open>
  Claim C10. The address requested and given to the extractor in the iteration for \<open>i\<close>
  is the base origin, a slash and the decimal string of \<open>i\<close>; of a response the scan
  reads the status and the text only, never its final address. So a record produced in
  the iteration for \<open>i\<close> has the decimal string of \<open>i\<close> as its id and that address as
  its url; every item of the returned dictionary is keyed by the decimal string of an id
  between 1 and \<open>max_id\<close> and holds the record of that id; and the key of a later id is
  not in the dictionary yet, so that no insertion meets an existing key.
\<close>

theorem id_is_loop_counter:
  "url_of i = BASE @ ''/'' @ str_int i
   \<and> fetch_body (Response c t f) = fetch_body (Response c t f2)
   \<and> (probe_loc get pfloat w i = Some l \<longrightarrow> id' l = str_int i \<and> url l = url_of i)
   \<and> (\<forall>kv\<in>set (scrape_by_ids get pfloat w m T).
         \<exists>j. 1 \<le> j \<and> j \<le> m \<and> fst kv = str_int j \<and> id' (snd kv) = str_int j
             \<and> url (snd kv) = url_of j)
   \<and> (m < i \<longrightarrow> str_int i \<notin> fst ` set (scrape_by_ids get pfloat w m T))"
proof (intro conjI)
  show "url_of i = BASE @ ''/'' @ str_int i" by (simp add: url_of_def)
  show "fetch_body (Response c t f) = fetch_body (Response c t f2)" by (simp add: fetch_body_def)
  show "probe_loc get pfloat w i = Some l \<longrightarrow> id' l = str_int i \<and> url l = url_of i"
    using probe_loc_id [of get pfloat w i l] by simp
  show "\<forall>kv\<in>set (scrape_by_ids get pfloat w m T).
         \<exists>j. 1 \<le> j \<and> j \<le> m \<and> fst kv = str_int j \<and> id' (snd kv) = str_int j
             \<and> url (snd kv) = url_of j"
    by (intro ballI) (rule run_items)
  show "m < i \<longrightarrow> str_int i \<notin> fst ` set (scrape_by_ids get pfloat w m T)"
    by (intro impI) (rule run_later_key_fresh)
qed

theorem id_is_loop_counter_witness:
  "str_int 2 = ''2'' \<and> url_of 2 = ''https://locations.in-n-out.com/2''
   \<and> (\<exists>j. 1 \<le> j \<and> j \<le> 2
          \<and> fst (last (scrape_by_ids serving py_float () 2 180)) = str_int j
          \<and> id' (snd (last (scrape_by_ids serving py_float () 2 180))) = str_int j
          \<and> url (snd (last (scrape_by_ids serving py_float () 2 180))) = url_of j)
   \<and> str_int 3 \<notin> fst ` set (scrape_by_ids serving py_float () 2 180)
   \<and> map fst (scrape_by_ids serving py_float () 2 180) = [''1'', ''2'']"
proof -
  note t = id_is_loop_counter [of 2 200 "[]" "[]" "[]" serving py_float "()"
      "\<lparr> id' = ''2'', slug = ''2'', name = ''In-N-Out Burger'',
            city_state = ''Los Angeles, CA'', address_line = ''123 Main St'',
            zip_code = ''90001'', latitude = Finite 34, longitude = Finite (- 118),
            url = ''https://locations.in-n-out.com/2'', image_url = [] \<rparr>" 2 180]
  note t3 = id_is_loop_counter [of 3 200 "[]" "[]" "[]" serving py_float "()" _ 2 180]
  have lt: "(2::int) < 3" by simp
  note r = t [THEN conjunct2, THEN conjunct2, THEN conjunct1, THEN mp, OF serving_loc]
  have e1: "''2'' = str_int 2" using r [THEN conjunct1] by simp
  have e2: "''https://locations.in-n-out.com/2'' = url_of 2" using r [THEN conjunct2] by simp
  have a: "str_int 2 = ''2'' \<and> url_of 2 = ''https://locations.in-n-out.com/2''"
    using e1 [symmetric] e2 [symmetric] by (rule conjI)
  have "scrape_by_ids serving py_float () 2 180 \<noteq> []" using serving_two by auto
  then have "last (scrape_by_ids serving py_float () 2 180)
      \<in> set (scrape_by_ids serving py_float () 2 180)" by (rule last_in_set)
  with t [THEN conjunct2, THEN conjunct2, THEN conjunct2, THEN conjunct1]
  have b: "\<exists>j. 1 \<le> j \<and> j \<le> 2
          \<and> fst (last (scrape_by_ids serving py_float () 2 180)) = str_int j
          \<and> id' (snd (last (scrape_by_ids serving py_float () 2 180))) = str_int j
          \<and> url (snd (last (scrape_by_ids serving py_float () 2 180))) = url_of j"
    by (rule bspec)
  from a b
    t3 [THEN conjunct2, THEN conjunct2, THEN conjunct2, THEN conjunct2, THEN mp, OF lt]
    serving_two
  show ?thesis by (intro conjI) (elim conjE, assumption)+
qed

lemma digitpart_rest_digits: "list_all is_digit ds \<Longrightarrow> digitpart_rest ds = (ds, [])"
  by (induction ds rule: digitpart_rest.induct) auto

lemma digitpart_digits: "list_all is_digit ds \<Longrightarrow> ds \<noteq> [] \<Longrightarrow> digitpart ds = Some (ds, [])"
  by (cases ds) (simp_all add: digitpart_def digitpart_rest_digits)

lemma py_int_dec: "py_int (dec n) = Some (int n)"
proof -
  have dig: "list_all is_digit (dec n)" by (rule dec_digits)
  have ne: "dec n \<noteq> []" by (rule dec_nonempty)
  have hl: "is_digit (hd (dec n))" "is_digit (last (dec n))"
    using digits_hd_last [OF dig ne] by simp_all
  have st: "strip_chars is_numeric_space (dec n) = dec n"
    using ne hl is_digit_not_special by (intro strip_chars_id) blast+
  obtain c cs where cs: "dec n = c # cs" using ne by (cases "dec n") auto
  then have "is_digit c" using hl(1) by simp
  then have "c \<noteq> CHR ''-''" "c \<noteq> CHR ''+''" using is_digit_not_special by blast+
  then have ss: "sign_split (dec n) = (False, dec n)" using cs by (simp add: sign_split_def)
  show ?thesis
    by (simp add: py_int_def st signed_digits_def ss digitpart_digits [OF dig ne] digits_val_dec)
qed

lemma py_int_str_int: "0 \<le> j \<Longrightarrow> py_int (str_int j) = Some j"
  by (simp add: str_int_nonneg py_int_dec)

lemma locations_sorted:
  assumes "list_all (\<lambda>kv. py_int (fst kv) \<noteq> None \<and> id' (snd kv) = fst kv) d"
  shows "\<exists>ls. locations d = Some ls \<and> sorted (map (\<lambda>l. int_key (id' l)) ls)
            \<and> mset ls = mset (map snd d)"
proof -
  let ?s = "sort_key (\<lambda>kv. int_key (fst kv)) d"
  have ok: "list_all (\<lambda>kv. py_int (fst kv) \<noteq> None) d"
    using assms by (simp add: list_all_iff)
  then have l: "locations d = Some (map snd ?s)" by (simp add: locations_def)
  have "\<forall>kv\<in>set ?s. id' (snd kv) = fst kv" using assms by (simp add: list_all_iff)
  then have eq: "map (\<lambda>l. int_key (id' l)) (map snd ?s) = map (\<lambda>kv. int_key (fst kv)) ?s"
    by simp
  have s: "sorted (map (\<lambda>l. int_key (id' l)) (map snd ?s))"
    unfolding eq by (rule sorted_sort_key)
  have m: "mset (map snd ?s) = mset (map snd d)" by simp
  from l s m show ?thesis by blast
qed

lemma run_numeric_keys:
  "list_all (\<lambda>kv. py_int (fst kv) \<noteq> None \<and> id' (snd kv) = fst kv)
     (scrape_by_ids get pfloat w m T)"
  unfolding list_all_iff
proof
  fix kv assume kv: "kv \<in> set (scrape_by_ids get pfloat w m T)"
  from run_items [OF kv]
  obtain j where j: "1 \<le> j" "fst kv = str_int j" "id' (snd kv) = str_int j"
    by blast
  then have "py_int (fst kv) = Some j" using py_int_str_int [of j] by simp
  with j show "py_int (fst kv) \<noteq> None \<and> id' (snd kv) = fst kv" by simp
qed

lemma locations_example: "locations [(''2'', a), (''10'', b), (''1'', c)] = Some [c, a, b]"
proof -
  have k: "py_int ''2'' = Some 2" "py_int ''10'' = Some 10" "py_int ''1'' = Some 1"
    by code_simp+
  then show ?thesis by (simp add: locations_def int_key_def)
qed

text \<open>
  Claim C7. For every dictionary whose keys are the ids of its records and are accepted
  by \<^verbatim>\<open>int\<close>, and so for every dictionary a scan returns, \<^verbatim>\<open>main\<close> emits the records
  of the dictionary, each once, in ascending order of the numeric value of the id. Records
  inserted under \<^verbatim>\<open>"2"\<close>, \<^verbatim>\<open>"10"\<close>, \<^verbatim>\<open>"1"\<close> in this order are emitted in the order
  \<^verbatim>\<open>"1"\<close>, \<^verbatim>\<open>"2"\<close>, \<^verbatim>\<open>"10"\<close>, where the order of the strings would put \<^verbatim>\<open>"10"\<close>
  before \<^verbatim>\<open>"2"\<close>.
\<close>

theorem emitted_in_numeric_order:
  "(list_all (\<lambda>kv. py_int (fst kv) \<noteq> None \<and> id' (snd kv) = fst kv) d \<longrightarrow>
      (\<exists>ls. locations d = Some ls \<and> sorted (map (\<lambda>l. int_key (id' l)) ls)
          \<and> mset ls = mset (map snd d)))
   \<and> (\<exists>ls. locations (scrape_by_ids get pfloat w m T) = Some ls
          \<and> sorted (map (\<lambda>l. int_key (id' l)) ls)
          \<and> mset ls = mset (map snd (scrape_by_ids get pfloat w m T)))
   \<and> locations [(''2'', a), (''10'', b), (''1'', c)] = Some [c, a, b]"
proof (intro conjI impI)
  assume "list_all (\<lambda>kv. py_int (fst kv) \<noteq> None \<and> id' (snd kv) = fst kv) d"
  then show "\<exists>ls. locations d = Some ls \<and> sorted (map (\<lambda>l. int_key (id' l)) ls)
          \<and> mset ls = mset (map snd d)" by (rule locations_sorted)
next
  show "\<exists>ls. locations (scrape_by_ids get pfloat w m T) = Some ls
          \<and> sorted (map (\<lambda>l. int_key (id' l)) ls)
          \<and> mset ls = mset (map snd (scrape_by_ids get pfloat w m T))"
    using run_numeric_keys by (rule locations_sorted)
next
  show "locations [(''2'', a), (''10'', b), (''1'', c)] = Some [c, a, b]"
    by (rule locations_example)
qed

theorem emitted_in_numeric_order_witness:
  "(\<exists>ls. locations [(''2'', sample_loc ''2''), (''10'', sample_loc ''10''), (''1'', sample_loc ''1'')]
            = Some ls
        \<and> sorted (map (\<lambda>l. int_key (id' l)) ls)
        \<and> mset ls = mset (map snd
            [(''2'', sample_loc ''2''), (''10'', sample_loc ''10''), (''1'', sample_loc ''1'')]))
   \<and> locations [(''2'', sample_loc ''2''), (''10'', sample_loc ''10''), (''1'', sample_loc ''1'')]
        = Some [sample_loc ''1'', sample_loc ''2'', sample_loc ''10'']"
proof -
  let ?d = "[(''2'', sample_loc ''2''), (''10'', sample_loc ''10''), (''1'', sample_loc ''1'')]"
  have h: "list_all (\<lambda>kv. py_int (fst kv) \<noteq> None \<and> id' (snd kv) = fst kv) ?d"
    by code_simp
  note t = emitted_in_numeric_order [of ?d down py_float "()" 0 180
      "sample_loc ''2''" "sample_loc ''10''" "sample_loc ''1''"]
  from t [THEN conjunct1, THEN mp, OF h] t [THEN conjunct2, THEN conjunct2]
  show ?thesis by (rule conjI)
qed

end
